theory Spec2Isabelle
  imports Complex_Main
begin

section \<open>Catalog items\<close>

text \<open>
  A Python \<open>str\<close> is a sequence of Unicode code points. \<open>text_of\<close> reads a literal of
  ASCII characters as such a sequence.
\<close>

type_synonym ustr = "nat list"

definition text_of :: "string \<Rightarrow> ustr" where
  "text_of s = map of_char s"

text \<open>
  An element of the \<open>results\<close> array of the catalog API, as the pipeline reads it
  (\<open>m["id"]\<close>, \<open>m.get("title")\<close>, ...). The identifier is an integer that every item
  has; an optional field that is absent or \<open>null\<close> reads as \<open>None\<close>; an absent
  \<open>genre_ids\<close> reads as the empty list (\<open>m.get("genre_ids", [])\<close>). The two
  floating point fields are only ever copied, never computed with, so the carrier
  \<open>real\<close> stands for them. The prefix \<open>m_\<close> is the loop variable of the source.
\<close>

record item =
  m_id :: int
  m_title :: "ustr option"
  m_overview :: "ustr option"
  m_release_date :: "ustr option"
  m_vote_average :: "real option"
  m_vote_count :: "int option"
  m_popularity :: "real option"
  m_genre_ids :: "int list"

subsection \<open>Python's \<open>str\<close> on integers\<close>

fun digits :: "nat \<Rightarrow> string" where
  "digits n =
     (if n < 10 then [''0123456789'' ! n]
      else digits (n div 10) @ [''0123456789'' ! (n mod 10)])"

declare digits.simps [simp del]

definition str :: "int \<Rightarrow> string" where
  "str i = (if i < 0 then CHR ''-'' # digits (nat (- i)) else digits (nat i))"

text \<open>\<open>sep.join(parts)\<close>\<close>

fun join :: "string \<Rightarrow> string list \<Rightarrow> string" where
  "join sep [] = []"
| "join sep [x] = x"
| "join sep (x # y # ys) = x @ sep @ join sep (y # ys)"

section \<open>Dates: \<open>parse_date_safe\<close>\<close>

datatype date = Date (year: nat) (month: nat) (day: nat)

text \<open>
  The decimal digits. In a regular expression on \<open>str\<close> the class \<open>\d\<close> matches every
  character of the Unicode category Nd, and \<open>int\<close> reads each of them with its decimal
  value. Which characters these are is a table of the interpreter's Unicode database;
  it is a parameter here: \<open>uni c\<close> is the decimal value of the code point \<open>c\<close> outside
  ASCII when \<open>c\<close> is a decimal digit. The ASCII digits are the code points 48 to 57.
\<close>

type_synonym decimal_table = "nat \<Rightarrow> nat option"

definition is_decimal :: "decimal_table \<Rightarrow> nat \<Rightarrow> bool" where
  "is_decimal uni c =
     ((48 \<le> c \<and> c \<le> 57) \<or> (case uni c of None \<Rightarrow> False | Some v \<Rightarrow> v < 10))"

definition decimal_value :: "decimal_table \<Rightarrow> nat \<Rightarrow> nat" where
  "decimal_value uni c =
     (if 48 \<le> c \<and> c \<le> 57 then c - 48 else (case uni c of None \<Rightarrow> 0 | Some v \<Rightarrow> v))"

text \<open>\<open>int(s)\<close> on a string of decimal digits.\<close>

definition num :: "decimal_table \<Rightarrow> ustr \<Rightarrow> nat" where
  "num uni s = fold (\<lambda>c n. 10 * n + decimal_value uni c) s 0"

definition is_leap :: "nat \<Rightarrow> bool" where
  "is_leap y = (y mod 4 = 0 \<and> (y mod 100 \<noteq> 0 \<or> y mod 400 = 0))"

definition days_in_month :: "nat \<Rightarrow> nat \<Rightarrow> nat" where
  "days_in_month y m =
     (if m = 2 then (if is_leap y then 29 else 28)
      else if m \<in> {4, 6, 9, 11} then 30 else 31)"

text \<open>
  \<open>datetime.strptime(date_str, "%Y-%m-%d")\<close> of the standard library, for this one
  format. The library compiles the format into the regular expression
  \<open>(\d\d\d\d)-(1[0-2]|0[1-9]|[1-9])-(3[01]|[12]\d|0[1-9]|[1-9]| [1-9])\<close>, matches it at
  the start of the string, raises \<open>ValueError\<close> when the match fails or does not
  reach the end of the string, and then builds the date, which raises \<open>ValueError\<close>
  for a year below 1 or a day the month does not have. \<open>None\<close> stands for the raise.
  Each group tries its alternatives in the order written. No alternative that fails
  later can be rescued by a shorter one (after \<open>1[0-2]\<close> the one-digit month would have
  to be followed by \<open>-\<close> where a digit stands), so ordered choice is the match.
  A bracketed class such as \<open>[0-2]\<close> is a range of ASCII code points (48 is \<open>0\<close>, 57 is
  \<open>9\<close>, 45 is \<open>-\<close>, 32 is the space); only \<open>\d\<close> reaches beyond ASCII.
\<close>

fun match_Y :: "decimal_table \<Rightarrow> ustr \<Rightarrow> (nat \<times> ustr) option" where
  "match_Y uni (a # b # c # d # rest) =
     (if is_decimal uni a \<and> is_decimal uni b \<and> is_decimal uni c \<and> is_decimal uni d
      then Some (num uni [a, b, c, d], rest) else None)"
| "match_Y uni _ = None"

fun match_m :: "decimal_table \<Rightarrow> ustr \<Rightarrow> (nat \<times> ustr) option" where
  "match_m uni (a # b # rest) =
     (if a = 49 \<and> 48 \<le> b \<and> b \<le> 50 then Some (num uni [a, b], rest)
      else if a = 48 \<and> 49 \<le> b \<and> b \<le> 57 then Some (num uni [a, b], rest)
      else if 49 \<le> a \<and> a \<le> 57 then Some (num uni [a], b # rest)
      else None)"
| "match_m uni [a] = (if 49 \<le> a \<and> a \<le> 57 then Some (num uni [a], []) else None)"
| "match_m uni [] = None"

fun match_d :: "decimal_table \<Rightarrow> ustr \<Rightarrow> (nat \<times> ustr) option" where
  "match_d uni (a # b # rest) =
     (if a = 51 \<and> 48 \<le> b \<and> b \<le> 49 then Some (num uni [a, b], rest)
      else if 49 \<le> a \<and> a \<le> 50 \<and> is_decimal uni b then Some (num uni [a, b], rest)
      else if a = 48 \<and> 49 \<le> b \<and> b \<le> 57 then Some (num uni [a, b], rest)
      else if 49 \<le> a \<and> a \<le> 57 then Some (num uni [a], b # rest)
      else if a = 32 \<and> 49 \<le> b \<and> b \<le> 57 then Some (num uni [b], rest)
      else None)"
| "match_d uni [a] = (if 49 \<le> a \<and> a \<le> 57 then Some (num uni [a], []) else None)"
| "match_d uni [] = None"

fun match_dash :: "ustr \<Rightarrow> ustr option" where
  "match_dash (c # rest) = (if c = 45 then Some rest else None)"
| "match_dash [] = None"

definition strptime :: "decimal_table \<Rightarrow> ustr \<Rightarrow> date option" where
  "strptime uni s =
     (case match_Y uni s of None \<Rightarrow> None
      | Some (y, s1) \<Rightarrow>
     (case match_dash s1 of None \<Rightarrow> None
      | Some s2 \<Rightarrow>
     (case match_m uni s2 of None \<Rightarrow> None
      | Some (m, s3) \<Rightarrow>
     (case match_dash s3 of None \<Rightarrow> None
      | Some s4 \<Rightarrow>
     (case match_d uni s4 of None \<Rightarrow> None
      | Some (d, s5) \<Rightarrow>
        if s5 \<noteq> [] then None
        else if y < 1 \<or> days_in_month y m < d then None
        else Some (Date y m d))))))"

text \<open>
  \<open>parse_date_safe\<close>: the bare \<open>except\<close> turns every raise into \<open>None\<close>, also the
  \<open>TypeError\<close> of \<open>strptime(None, ...)\<close> for an item with no release date.
\<close>

definition parse_date_safe :: "decimal_table \<Rightarrow> ustr option \<Rightarrow> date option" where
  "parse_date_safe uni date_str =
     (case date_str of None \<Rightarrow> None | Some s \<Rightarrow> strptime uni s)"

section \<open>Fetcher and Batch Collector: \<open>fetch_movies_batch\<close>\<close>

text \<open>
  What one \<open>http_session.get\<close> comes back with. \<open>ConnectionError\<close> is any exception of
  the call itself (network error, timeout). \<open>Response status body\<close> is an answer with
  its status code; \<open>body\<close> is \<open>None\<close> when \<open>response.json()\<close> or \<open>data.get\<close> raises
  (no JSON, or JSON that is not an object), and otherwise \<open>Some\<close> of
  \<open>data.get("results", [])\<close>, the empty list also for an absent key.
\<close>

datatype response = ConnectionError | Response int "item list option"

text \<open>
  The remote service: the answer to the request for a page, by the number of requests
  already made for that page in the batch (0, 1, 2).
\<close>

type_synonym api = "int \<Rightarrow> nat \<Rightarrow> response"

text \<open>
  What the run does to the outside, in order: a GET of a page, or a sleep
  (\<open>time.sleep\<close>, in milliseconds: 400 after a page with results, 2000 after a failed
  attempt).
\<close>

datatype event = Get int | Sleep nat

text \<open>
  How the \<open>while retries > 0\<close> loop of one page ends: \<open>break\<close> after extending
  \<open>movies\<close> with the results, \<open>return movies\<close> on an empty result, or the \<open>else\<close> branch
  of the loop once the retries are used up.
\<close>

datatype page_result = Extended "item list" | Exhausted | Skipped

text \<open>
  The body of the \<open>try\<close> up to \<open>results\<close>: the request raises, a status other than 200
  raises, a body that cannot be read raises (\<open>None\<close>), or \<open>results\<close> is bound.
\<close>

definition try_body :: "response \<Rightarrow> item list option" where
  "try_body r =
     (case r of
        ConnectionError \<Rightarrow> None
      | Response status_code body \<Rightarrow> if status_code \<noteq> 200 then None else body)"

text \<open>
  The \<open>while retries > 0\<close> loop. The \<open>except Exception\<close> branch counts the retry down
  and sleeps 2 seconds. \<open>retries\<close> is the loop variable, 3 at the start, so the request
  being made is number \<open>3 - retries\<close> of the page.
\<close>

fun fetch_page :: "api \<Rightarrow> int \<Rightarrow> nat \<Rightarrow> page_result \<times> event list" where
  "fetch_page api page 0 = (Skipped, [])"
| "fetch_page api page (Suc r) =
     (case try_body (api page (3 - Suc r)) of
        Some results \<Rightarrow>
          if results = [] then (Exhausted, [Get page])
          else (Extended results, [Get page, Sleep 400])
      | None \<Rightarrow>
          (let (res, evs) = fetch_page api page r
           in (res, Get page # Sleep 2000 # evs)))"

text \<open>The \<open>for page in range(...)\<close> loop, \<open>movies\<close> being the list built so far.\<close>

fun fetch_pages :: "api \<Rightarrow> int list \<Rightarrow> item list \<Rightarrow> item list \<times> event list" where
  "fetch_pages api [] movies = (movies, [])"
| "fetch_pages api (page # pages) movies =
     (case fetch_page api page 3 of
        (Exhausted, evs) \<Rightarrow> (movies, evs)
      | (Extended results, evs) \<Rightarrow>
          (let (ms, evs') = fetch_pages api pages (movies @ results) in (ms, evs @ evs'))
      | (Skipped, evs) \<Rightarrow>
          (let (ms, evs') = fetch_pages api pages movies in (ms, evs @ evs')))"

text \<open>\<open>range(start_page, start_page + pages_per_batch)\<close> is empty for a size below 1.\<close>

definition fetch_movies_batch :: "api \<Rightarrow> int \<Rightarrow> int \<Rightarrow> item list \<times> event list" where
  "fetch_movies_batch api start_page pages_per_batch =
     fetch_pages api [start_page .. start_page + pages_per_batch - 1] []"

text \<open>An attempt that raises inside the \<open>try\<close>.\<close>

definition attempt_fails :: "response \<Rightarrow> bool" where
  "attempt_fails r =
     (case r of ConnectionError \<Rightarrow> True
      | Response status_code body \<Rightarrow> status_code \<noteq> 200 \<or> body = None)"

section \<open>Mirror Writer: \<open>save_to_csv\<close>\<close>

text \<open>
  A value handed to \<open>writer.writerow\<close>, and the file as the sequence of rows written to
  it. The destination is \<open>None\<close> while no file of that name exists.
\<close>

datatype cell = CNone | CInt int | CStr ustr | CFloat real

type_synonym row = "cell list"

definition header :: row where
  "header = map (\<lambda>name. CStr (text_of name))
     [''id'', ''title'', ''overview'', ''release_date'',
      ''vote_average'', ''vote_count'', ''popularity'', ''genre_ids'']"

definition opt_cell :: "('a \<Rightarrow> cell) \<Rightarrow> 'a option \<Rightarrow> cell" where
  "opt_cell f v = (case v of None \<Rightarrow> CNone | Some x \<Rightarrow> f x)"

definition csv_row :: "item \<Rightarrow> row" where
  "csv_row m =
     [CInt (m_id m), opt_cell CStr (m_title m), opt_cell CStr (m_overview m),
      opt_cell CStr (m_release_date m), opt_cell CFloat (m_vote_average m),
      opt_cell CInt (m_vote_count m), opt_cell CFloat (m_popularity m),
      CStr (text_of (join '','' (map str (m_genre_ids m))))]"

definition save_to_csv :: "item list \<Rightarrow> row list option \<Rightarrow> row list option" where
  "save_to_csv movies file =
     (let file_exists = (file \<noteq> None);
          f = (case file of None \<Rightarrow> [] | Some rows \<Rightarrow> rows);
          f = (if \<not> file_exists then f @ [header] else f)
      in Some (f @ map csv_row movies))"

section \<open>Upsert Engine: \<open>save_batch_to_db\<close>\<close>

text \<open>
  The three tables of the schema, each the list of its rows. \<open>movie\<close> and \<open>genre\<close> are
  the mapped classes \<open>Movie\<close> and \<open>Genre\<close> (the column \<open>id\<close> of \<open>Movie\<close> is \<open>movie_id\<close>
  here); a row of \<open>movies_genres\<close> is the pair \<open>(movie_id, genre_id)\<close>.
\<close>

record movie =
  movie_id :: int
  title :: "ustr option"
  overview :: "ustr option"
  release_date :: "date option"
  vote_average :: "real option"
  vote_count :: "int option"
  popularity :: "real option"

record genre =
  genre_id :: int
  genre_name :: ustr

record store =
  movies :: "movie list"
  genres :: "genre list"
  movies_genres :: "(int \<times> int) list"

text \<open>
  The exceptions the database layer raises: the server cannot be reached, a value does
  not fit its column, a key of the schema is violated.
\<close>

datatype error = OperationalError | DataError | IntegrityError

text \<open>
  The PostgreSQL server of \<open>DATABASE_URL\<close>: whether it accepts connections, the
  committed tables, and the tables as the open transaction of the session sees them,
  its own inserts included. Runs do not overlap (the scheduler allows one instance),
  so a transaction begins on the committed tables.
\<close>

record pg =
  accepting :: bool
  committed :: store
  in_tx :: store

subsection \<open>Column types and keys\<close>

text \<open>\<open>Integer\<close> is the 32-bit \<open>INTEGER\<close> of PostgreSQL.\<close>

definition int4 :: "int \<Rightarrow> bool" where
  "int4 i = (- 2147483648 \<le> i \<and> i \<le> 2147483647)"

text \<open>
  \<open>String(n)\<close> is \<open>VARCHAR(n)\<close>, counted in characters: a longer value is an error,
  unless all the characters beyond \<open>n\<close> are spaces, which PostgreSQL cuts off.
\<close>

definition varchar :: "nat \<Rightarrow> ustr option \<Rightarrow> error + ustr option" where
  "varchar n v =
     (case v of
        None \<Rightarrow> Inr None
      | Some t \<Rightarrow>
          if length t \<le> n then Inr (Some t)
          else if list_all (\<lambda>c. c = 32) (drop n t) then Inr (Some (take n t))
          else Inl DataError)"

text \<open>
  One \<open>INSERT\<close> of a row into its table: the values are fitted to the column types,
  then the primary key (and for \<open>movies_genres\<close> the two foreign keys) is checked.
\<close>

definition insert_genre :: "genre \<Rightarrow> store \<Rightarrow> error + store" where
  "insert_genre g t =
     (if \<not> int4 (genre_id g) then Inl DataError
      else if genre_id g \<in> set (map genre_id (genres t)) then Inl IntegrityError
      else Inr (t\<lparr>genres := genres t @ [g]\<rparr>))"

definition insert_movie :: "movie \<Rightarrow> store \<Rightarrow> error + store" where
  "insert_movie r t =
     (if \<not> int4 (movie_id r) then Inl DataError
      else if \<not> (case vote_count r of None \<Rightarrow> True | Some v \<Rightarrow> int4 v) then Inl DataError
      else (case varchar 225 (title r) of
              Inl e \<Rightarrow> Inl e
            | Inr fitted \<Rightarrow>
                if movie_id r \<in> set (map movie_id (movies t)) then Inl IntegrityError
                else Inr (t\<lparr>movies := movies t @ [r\<lparr>title := fitted\<rparr>]\<rparr>)))"

definition insert_link :: "int \<times> int \<Rightarrow> store \<Rightarrow> error + store" where
  "insert_link l t =
     (if \<not> int4 (fst l) \<or> \<not> int4 (snd l) then Inl DataError
      else if l \<in> set (movies_genres t) then Inl IntegrityError
      else if fst l \<notin> set (map movie_id (movies t)) then Inl IntegrityError
      else if snd l \<notin> set (map genre_id (genres t)) then Inl IntegrityError
      else Inr (t\<lparr>movies_genres := movies_genres t @ [l]\<rparr>))"

text \<open>
  A statement inside the open transaction changes the tables of the transaction and
  nothing else; a statement that raises changes nothing. \<open>execute_all\<close> inserts rows
  one after the other and stops at the first that raises.
\<close>

definition execute :: "('a \<Rightarrow> store \<Rightarrow> error + store) \<Rightarrow> 'a \<Rightarrow> pg \<Rightarrow> error option \<times> pg" where
  "execute ins x db =
     (case ins x (in_tx db) of
        Inl e \<Rightarrow> (Some e, db)
      | Inr t \<Rightarrow> (None, db\<lparr>in_tx := t\<rparr>))"

fun execute_all :: "('a \<Rightarrow> store \<Rightarrow> error + store) \<Rightarrow> 'a list \<Rightarrow> pg \<Rightarrow> error option \<times> pg" where
  "execute_all ins [] db = (None, db)"
| "execute_all ins (x # xs) db =
     (case execute ins x db of
        (Some e, db') \<Rightarrow> (Some e, db')
      | (None, db') \<Rightarrow> execute_all ins xs db')"

subsection \<open>The session\<close>

text \<open>
  The session of one call: its connection, the dictionary \<open>genre_cache\<close>, and the
  pending objects, those handed to \<open>session.add\<close> and not yet flushed, in order; a
  new \<open>Movie\<close> goes together with its \<open>genres\<close> collection (a Python list, one entry
  per \<open>append\<close>).
\<close>

record session =
  conn :: pg
  genre_cache :: "int \<rightharpoonup> genre"
  new_genres :: "genre list"
  new_movies :: "(movie \<times> genre list) list"

text \<open>
  \<open>Session()\<close> and the dictionary comprehension over \<open>session.query(Genre).all()\<close>,
  the first statement of the transaction.
\<close>

definition open_session :: "pg \<Rightarrow> session" where
  "open_session db =
     \<lparr>conn = db\<lparr>in_tx := committed db\<rparr>,
      genre_cache = fold (\<lambda>g c. c(genre_id g \<mapsto> g)) (genres (committed db)) Map.empty,
      new_genres = [], new_movies = []\<rparr>"

text \<open>
  The rows of \<open>movies_genres\<close> a flush inserts: one per entry of each pending movie's
  \<open>genres\<close> list.
\<close>

definition new_links :: "session \<Rightarrow> (int \<times> int) list" where
  "new_links s =
     concat (map (\<lambda>(mv, gs). map (\<lambda>g. (movie_id mv, genre_id g)) gs) (new_movies s))"

text \<open>
  A flush writes the pending objects into the transaction: the rows of the two mapped
  classes, then the rows of the association table, which refer to them. The first
  statement that raises ends it, with the exception. Between two flushes at most one
  movie is added, so the order among movies does not matter.
\<close>

definition flush :: "session \<Rightarrow> error option \<times> session" where
  "flush s =
     (case execute_all insert_genre (new_genres s) (conn s) of
        (Some e, c) \<Rightarrow> (Some e, s\<lparr>conn := c\<rparr>)
      | (None, c) \<Rightarrow>
     (case execute_all insert_movie (map fst (new_movies s)) c of
        (Some e, c) \<Rightarrow> (Some e, s\<lparr>conn := c\<rparr>)
      | (None, c) \<Rightarrow>
     (case execute_all insert_link (new_links s) c of
        (Some e, c) \<Rightarrow> (Some e, s\<lparr>conn := c\<rparr>)
      | (None, c) \<Rightarrow> (None, s\<lparr>conn := c, new_genres := [], new_movies := []\<rparr>))))"

text \<open>
  \<open>session.get(Movie, k)\<close>. The session is created with the default \<open>autoflush\<close>, so
  the lookup first flushes the pending objects, which may raise, and then selects by
  primary key inside the transaction: it finds the committed rows and the movies added
  earlier in the same call. (A lookup that finds the object in the identity map of the
  session returns it without the flush; the pending objects are then flushed by the
  next lookup or by the commit, and nothing happens in between.)
\<close>

definition session_get :: "session \<Rightarrow> int \<Rightarrow> (error + movie option) \<times> session" where
  "session_get s k =
     (case flush s of
        (Some e, s') \<Rightarrow> (Inl e, s')
      | (None, s') \<Rightarrow> (Inr (find (\<lambda>r. movie_id r = k) (movies (in_tx (conn s')))), s'))"

text \<open>
  The loop \<open>for gid in m.get("genre_ids", [])\<close>; \<open>gs\<close> is \<open>movie.genres\<close> so far.
\<close>

fun add_genres :: "int list \<Rightarrow> session \<Rightarrow> genre list \<Rightarrow> session \<times> genre list" where
  "add_genres [] s gs = (s, gs)"
| "add_genres (gid # gids) s gs =
     (case genre_cache s gid of
        None \<Rightarrow>
          (let g = \<lparr>genre_id = gid, genre_name = text_of (''Genre '' @ str gid)\<rparr>;
               s' = s\<lparr>genre_cache := (genre_cache s)(gid \<mapsto> g),
                      new_genres := new_genres s @ [g]\<rparr>
           in add_genres gids s' (gs @ [g]))
      | Some g \<Rightarrow> add_genres gids s (gs @ [g]))"

definition new_movie :: "decimal_table \<Rightarrow> item \<Rightarrow> movie" where
  "new_movie uni m =
     \<lparr>movie_id = m_id m, title = m_title m, overview = m_overview m,
      release_date = parse_date_safe uni (m_release_date m),
      vote_average = m_vote_average m, vote_count = m_vote_count m,
      popularity = m_popularity m\<rparr>"

text \<open>
  The body of the loop \<open>for m in movies\<close> for an item that is not skipped: the inner
  loop over its genre ids, then \<open>session.add(movie)\<close>.
\<close>

definition stage_movie :: "decimal_table \<Rightarrow> item \<Rightarrow> session \<Rightarrow> session" where
  "stage_movie uni m s =
     (let (s', gs) = add_genres (m_genre_ids m) s []
      in s'\<lparr>new_movies := new_movies s' @ [(new_movie uni m, gs)]\<rparr>)"

text \<open>
  The loop \<open>for m in movies\<close>, with its \<open>continue\<close> for a known identifier. An
  exception of the lookup ends the loop and the call.
\<close>

fun save_loop :: "decimal_table \<Rightarrow> item list \<Rightarrow> session \<Rightarrow> error option \<times> session" where
  "save_loop uni [] s = (None, s)"
| "save_loop uni (m # ms) s =
     (case session_get s (m_id m) of
        (Inl e, s') \<Rightarrow> (Some e, s')
      | (Inr (Some existing), s') \<Rightarrow> save_loop uni ms s'
      | (Inr None, s') \<Rightarrow> save_loop uni ms (stage_movie uni m s'))"

text \<open>
  \<open>session.commit()\<close>: a last flush, then the \<open>COMMIT\<close>, which makes the tables of the
  transaction the committed ones.
\<close>

definition commit :: "session \<Rightarrow> error option \<times> session" where
  "commit s =
     (case flush s of
        (Some e, s') \<Rightarrow> (Some e, s')
      | (None, s') \<Rightarrow> (None, s'\<lparr>conn := (conn s')\<lparr>committed := in_tx (conn s')\<rparr>\<rparr>))"

text \<open>
  The call: the exception that leaves it, if any, and the server after it. An exception
  leaves the transaction open and unfinished; the server discards it when the
  connection is given up, and the next session begins on the committed tables.
\<close>

definition save_batch_to_db :: "decimal_table \<Rightarrow> item list \<Rightarrow> pg \<Rightarrow> error option \<times> pg" where
  "save_batch_to_db uni movies_arg db =
     (if \<not> accepting db then (Some OperationalError, db)
      else
        (case save_loop uni movies_arg (open_session db) of
           (Some e, s) \<Rightarrow> (Some e, conn s)
         | (None, s) \<Rightarrow> (case commit s of (e, s') \<Rightarrow> (e, conn s'))))"

section \<open>Pipeline Driver: \<open>main\<close>\<close>

text \<open>
  What a run changes: the database, the mirror file \<open>popular_movies.csv\<close> and the
  requests and sleeps made so far.
\<close>

record world =
  database :: pg
  csv_file :: "row list option"
  trace :: "event list"

text \<open>
  \<open>Completed\<close>: the loop ended and \<open>main\<close> returned. \<open>Failed e\<close>: the exception of
  \<open>save_batch_to_db\<close>, which nothing in \<open>main\<close> catches, ended the run.
\<close>

datatype run_result = Completed | Failed error

function main_loop ::
  "decimal_table \<Rightarrow> api \<Rightarrow> int \<Rightarrow> int \<Rightarrow> int \<Rightarrow> world \<Rightarrow> run_result \<times> world" where
  "main_loop uni api MAX_PAGES PAGES_PER_BATCH page w =
     (if page \<le> MAX_PAGES then
        (let batch = fst (fetch_movies_batch api page PAGES_PER_BATCH);
             w1 = w\<lparr>trace := trace w @ snd (fetch_movies_batch api page PAGES_PER_BATCH)\<rparr>
         in if batch = [] then (Completed, w1)
            else
              (let w2 = w1\<lparr>csv_file := save_to_csv batch (csv_file w1)\<rparr>
               in case save_batch_to_db uni batch (database w2) of
                    (Some e, db') \<Rightarrow> (Failed e, w2\<lparr>database := db'\<rparr>)
                  | (None, db') \<Rightarrow>
                      main_loop uni api MAX_PAGES PAGES_PER_BATCH (page + PAGES_PER_BATCH)
                        (w2\<lparr>database := db'\<rparr>)))
      else (Completed, w))"
  by pat_completeness auto
termination
proof (relation "measure (\<lambda>(uni, api, MAX_PAGES, PAGES_PER_BATCH, page, w).
                   nat (MAX_PAGES + 1 - page))")
  show "wf (measure (\<lambda>(uni, api, MAX_PAGES, PAGES_PER_BATCH, page, w).
              nat (MAX_PAGES + 1 - page)))"
    by simp
next
  fix uni :: decimal_table and api :: api and MAX_PAGES PAGES_PER_BATCH page :: int
    and w :: world and batch w1 w2 db'
  assume le: "page \<le> MAX_PAGES"
    and batch: "batch = fst (fetch_movies_batch api page PAGES_PER_BATCH)"
    and nonempty: "batch \<noteq> []"
  have "0 < PAGES_PER_BATCH"
  proof (rule ccontr)
    assume "\<not> 0 < PAGES_PER_BATCH"
    then have "[page .. page + PAGES_PER_BATCH - 1] = []" by simp
    then have "batch = []" by (simp add: batch fetch_movies_batch_def)
    with nonempty show False by simp
  qed
  with le show "((uni, api, MAX_PAGES, PAGES_PER_BATCH, page + PAGES_PER_BATCH,
                  w2\<lparr>database := db'\<rparr>),
                 (uni, api, MAX_PAGES, PAGES_PER_BATCH, page, w))
                \<in> measure (\<lambda>(uni, api, MAX_PAGES, PAGES_PER_BATCH, page, w).
                     nat (MAX_PAGES + 1 - page))"
    by simp
qed

declare main_loop.simps [simp del]

text \<open>\<open>main\<close>, with its two constants and the first page.\<close>

definition main :: "decimal_table \<Rightarrow> api \<Rightarrow> world \<Rightarrow> run_result \<times> world" where
  "main uni api w = main_loop uni api 100 5 1 w"

section \<open>Notions the properties are stated with\<close>

subsection \<open>Pages\<close>

text \<open>
  Page \<open>p\<close> answers with \<open>rs\<close>: one of the three requests for it returns status 200
  with the results \<open>rs\<close>, and every request before that one fails.
\<close>

definition answers :: "api \<Rightarrow> int \<Rightarrow> item list \<Rightarrow> bool" where
  "answers api p rs =
     (api p 0 = Response 200 (Some rs)
      \<or> (attempt_fails (api p 0)
          \<and> (api p 1 = Response 200 (Some rs)
              \<or> (attempt_fails (api p 1) \<and> api p 2 = Response 200 (Some rs)))))"

text \<open>
  The items of a page: the results of the first of its three requests that does not
  fail, and nothing when all three fail.
\<close>

fun first_results :: "response list \<Rightarrow> item list" where
  "first_results [] = []"
| "first_results (r # rs) =
     (if attempt_fails r then first_results rs
      else (case r of Response status_code (Some xs) \<Rightarrow> xs | _ \<Rightarrow> []))"

definition page_items :: "api \<Rightarrow> int \<Rightarrow> item list" where
  "page_items api p = first_results [api p 0, api p 1, api p 2]"

text \<open>How the loop of a page ends on the results \<open>xs\<close> of a request.\<close>

definition page_end :: "item list \<Rightarrow> page_result" where
  "page_end xs = (if xs = [] then Exhausted else Extended xs)"

subsection \<open>Batches and tables\<close>

text \<open>
  A batch without the items whose identifier occurred earlier in it (or is in \<open>seen\<close>).
\<close>

fun first_occurrences :: "int list \<Rightarrow> item list \<Rightarrow> item list" where
  "first_occurrences seen [] = []"
| "first_occurrences seen (m # ms) =
     (if m_id m \<in> set seen then first_occurrences seen ms
      else m # first_occurrences (m_id m # seen) ms)"

text \<open>
  A primary key over rows added to a table: the keys of the added rows are pairwise
  different and none is in the table already.
\<close>

definition pk_ok :: "'k list \<Rightarrow> 'k list \<Rightarrow> bool" where
  "pk_ok old new = (distinct new \<and> set new \<inter> set old = {})"

text \<open>
  A list of keys that begins with \<open>old\<close> and goes on with keys that keep the primary
  key: what a table holds after rows were added to it.
\<close>

definition extends :: "int list \<Rightarrow> int list \<Rightarrow> bool" where
  "extends old now = (take (length old) now = old \<and> pk_ok old (drop (length old) now))"

text \<open>The identifiers in the table \<open>movies\<close>.\<close>

definition movie_ids :: "store \<Rightarrow> int list" where
  "movie_ids t = map movie_id (movies t)"

text \<open>The items of a batch a call adds to a table \<open>t\<close>: first occurrences, not in \<open>t\<close>.\<close>

definition new_items :: "store \<Rightarrow> item list \<Rightarrow> item list" where
  "new_items t batch =
     filter (\<lambda>m. m_id m \<notin> set (movie_ids t)) (first_occurrences [] batch)"

text \<open>
  The rest of a call from a state of its session: the loop over the remaining items,
  then the commit.
\<close>

definition finish :: "decimal_table \<Rightarrow> item list \<Rightarrow> session \<Rightarrow> error option \<times> pg" where
  "finish uni ms s =
     (case save_loop uni ms s of
        (Some e, s') \<Rightarrow> (Some e, conn s')
      | (None, s') \<Rightarrow> (case commit s' of (e, s'') \<Rightarrow> (e, conn s'')))"

definition pending_free :: "session \<Rightarrow> bool" where
  "pending_free s = (new_genres s = [] \<and> new_movies s = [])"

definition tx_ids :: "session \<Rightarrow> int set" where
  "tx_ids s = set (movie_ids (in_tx (conn s)))"

subsection \<open>Spellings of dates\<close>

text \<open>
  A well-formed \<open>YYYY-MM-DD\<close> string: four ASCII digits, a dash, two ASCII digits, a
  dash, two ASCII digits, where the month is 1 to 12 and the day is one the month has
  in that year; and the date it names.
\<close>

definition ascii_digit :: "nat \<Rightarrow> bool" where
  "ascii_digit c = (48 \<le> c \<and> c \<le> 57)"

definition ascii_num :: "ustr \<Rightarrow> nat" where
  "ascii_num s = fold (\<lambda>c n. 10 * n + (c - 48)) s 0"

definition well_formed_date :: "ustr \<Rightarrow> bool" where
  "well_formed_date s =
     (length s = 10 \<and> list_all ascii_digit (take 4 s) \<and> s ! 4 = 45
      \<and> list_all ascii_digit (take 2 (drop 5 s)) \<and> s ! 7 = 45
      \<and> list_all ascii_digit (drop 8 s)
      \<and> 1 \<le> ascii_num (take 2 (drop 5 s)) \<and> ascii_num (take 2 (drop 5 s)) \<le> 12
      \<and> 1 \<le> ascii_num (drop 8 s)
      \<and> ascii_num (drop 8 s)
           \<le> days_in_month (ascii_num (take 4 s)) (ascii_num (take 2 (drop 5 s))))"

definition calendar_date :: "ustr \<Rightarrow> date" where
  "calendar_date s =
     Date (ascii_num (take 4 s)) (ascii_num (take 2 (drop 5 s))) (ascii_num (drop 8 s))"

text \<open>
  The spellings the parser of the library reads. A year is four decimal digits of any
  script. A month is written in ASCII, without or with a leading zero. A day is
  written in ASCII without a leading zero, or with a zero or a space before a single
  digit; the second digit of the days 10 to 29 may be a decimal digit of any script.
\<close>

definition year_spelling :: "decimal_table \<Rightarrow> ustr \<Rightarrow> nat \<Rightarrow> bool" where
  "year_spelling uni Y y = (length Y = 4 \<and> list_all (is_decimal uni) Y \<and> y = num uni Y)"

definition month_spelling :: "ustr \<Rightarrow> nat \<Rightarrow> bool" where
  "month_spelling M m =
     (1 \<le> m \<and> m \<le> 12
      \<and> (M = text_of (digits m) \<or> (m < 10 \<and> M = text_of (CHR ''0'' # digits m))))"

definition day_spelling :: "decimal_table \<Rightarrow> ustr \<Rightarrow> nat \<Rightarrow> bool" where
  "day_spelling uni D d =
     (1 \<le> d \<and> d \<le> 31
      \<and> (D = text_of (digits d)
          \<or> (d < 10 \<and> (D = text_of (CHR ''0'' # digits d) \<or> D = text_of (CHR '' '' # digits d)))
          \<or> (10 \<le> d \<and> d < 30
              \<and> (\<exists>c. is_decimal uni c \<and> decimal_value uni c = d mod 10
                       \<and> D = [48 + d div 10, c]))))"

definition date_spelling :: "decimal_table \<Rightarrow> ustr \<Rightarrow> nat \<Rightarrow> nat \<Rightarrow> nat \<Rightarrow> bool" where
  "date_spelling uni s y m d =
     (\<exists>Y M D. s = Y @ 45 # M @ 45 # D
        \<and> year_spelling uni Y y \<and> month_spelling M m \<and> day_spelling uni D d)"

section \<open>Sample data\<close>

text \<open>A table of decimal digits that knows the ARABIC-INDIC digits, U+0660 to U+0669.\<close>

definition arabic_indic :: decimal_table where
  "arabic_indic c = (if 1632 \<le> c \<and> c \<le> 1641 then Some (c - 1632) else None)"

definition sample_item :: "int \<Rightarrow> ustr option \<Rightarrow> int list \<Rightarrow> item" where
  "sample_item i d gids =
     \<lparr>m_id = i, m_title = Some (text_of ''Heat''), m_overview = None, m_release_date = d,
      m_vote_average = None, m_vote_count = Some 12, m_popularity = None,
      m_genre_ids = gids\<rparr>"

definition empty_store :: store where
  "empty_store = \<lparr>movies = [], genres = [], movies_genres = []\<rparr>"

text \<open>A server with the tables \<open>t\<close> committed and no transaction under way.\<close>

definition server :: "store \<Rightarrow> pg" where
  "server t = \<lparr>accepting = True, committed = t, in_tx = t\<rparr>"

definition empty_world :: world where
  "empty_world = \<lparr>database = server empty_store, csv_file = None, trace = []\<rparr>"

text \<open>A catalog of one page: page 1 holds one item, every other page is empty.\<close>

definition one_page_api :: api where
  "one_page_api page n =
     (if page = 1
      then Response 200 (Some [sample_item 7 (Some (text_of ''1995-12-15'')) [1, 2]])
      else Response 200 (Some []))"

text \<open>A catalog whose page 2 never answers; pages 1 and 3 hold one item each.\<close>

definition flaky_api :: api where
  "flaky_api page n =
     (if page = 1 then Response 200 (Some [sample_item 7 None [1]])
      else if page = 2 then (if n = 1 then Response 503 None else ConnectionError)
      else if page = 3 then Response 200 (Some [sample_item 9 None [2]])
      else Response 200 (Some []))"

text \<open>
  A catalog of two pages: page 1 holds two items, page 2 answers on the second request
  with one item, every other page is empty.
\<close>

definition two_page_api :: api where
  "two_page_api page n =
     (if page = 1 then Response 200 (Some [sample_item 7 None [1], sample_item 8 None []])
      else if page = 2 then
        (if n = 0 then Response 503 None else Response 200 (Some [sample_item 9 None [2]]))
      else Response 200 (Some []))"

text \<open>A catalog whose second item repeats a genre id.\<close>

definition dup_genre_api :: api where
  "dup_genre_api page n =
     (if page = 1
      then Response 200 (Some [sample_item 7 None [1, 2], sample_item 9 None [3, 3]])
      else Response 200 (Some []))"

text \<open>The tables after \<open>sample_item 7 None [1, 2]\<close> was persisted into the empty ones.\<close>

definition sample_store :: store where
  "sample_store =
     \<lparr>movies = [\<lparr>movie_id = 7, title = Some (text_of ''Heat''), overview = None,
                  release_date = None, vote_average = None,
                  vote_count = Some 12, popularity = None\<rparr>],
      genres = [\<lparr>genre_id = 1, genre_name = text_of ''Genre 1''\<rparr>,
                \<lparr>genre_id = 2, genre_name = text_of ''Genre 2''\<rparr>],
      movies_genres = [(7, 1), (7, 2)]\<rparr>"

section \<open>Lemmas about the Fetcher and the Collector\<close>

lemma attempt_fails_try_body: "attempt_fails r \<longleftrightarrow> try_body r = None"
  by (simp add: attempt_fails_def try_body_def split: response.splits)

lemma try_body_Some: "try_body r = Some xs \<longleftrightarrow> r = Response 200 (Some xs)"
  by (auto simp: try_body_def split: response.splits)

lemma first_results_Cons:
  "first_results (r # rs) = (case try_body r of None \<Rightarrow> first_results rs | Some xs \<Rightarrow> xs)"
  by (auto simp: try_body_def attempt_fails_def split: response.splits option.splits)

lemma fetch_page_retry:
  "try_body (api page (3 - Suc r)) = None \<Longrightarrow>
   fetch_page api page (Suc r) =
     (fst (fetch_page api page r), Get page # Sleep 2000 # snd (fetch_page api page r))"
  by (simp split: prod.splits)

lemma fetch_page_fst:
  "fst (fetch_page api p 3) =
     (case try_body (api p 0) of Some xs \<Rightarrow> page_end xs
      | None \<Rightarrow> (case try_body (api p 1) of Some xs \<Rightarrow> page_end xs
      | None \<Rightarrow> (case try_body (api p 2) of Some xs \<Rightarrow> page_end xs
      | None \<Rightarrow> Skipped)))"
proof -
  have "fst (fetch_page api p (Suc (Suc (Suc 0)))) =
     (case try_body (api p 0) of Some xs \<Rightarrow> page_end xs
      | None \<Rightarrow> (case try_body (api p 1) of Some xs \<Rightarrow> page_end xs
      | None \<Rightarrow> (case try_body (api p 2) of Some xs \<Rightarrow> page_end xs
      | None \<Rightarrow> Skipped)))"
    by (simp add: page_end_def split: option.splits prod.splits)
  then show ?thesis by (simp only: numeral_3_eq_3)
qed

lemma page_items_eq:
  "page_items api p =
     (case try_body (api p 0) of Some xs \<Rightarrow> xs
      | None \<Rightarrow> (case try_body (api p 1) of Some xs \<Rightarrow> xs
      | None \<Rightarrow> (case try_body (api p 2) of Some xs \<Rightarrow> xs
      | None \<Rightarrow> [])))"
  by (simp add: page_items_def first_results_Cons del: first_results.simps(2)
      split: option.splits)

lemma answers_iff:
  "answers api p rs \<longleftrightarrow>
     (try_body (api p 0) = Some rs
      \<or> (try_body (api p 0) = None
          \<and> (try_body (api p 1) = Some rs
              \<or> (try_body (api p 1) = None \<and> try_body (api p 2) = Some rs))))"
  by (simp add: answers_def attempt_fails_try_body try_body_Some)

lemma exhausted_iff: "fst (fetch_page api p 3) = Exhausted \<longleftrightarrow> answers api p []"
  by (auto simp: fetch_page_fst answers_iff page_end_def split: option.splits if_splits)

lemma answers_items: "answers api p rs \<Longrightarrow> page_items api p = rs"
  by (auto simp: page_items_eq answers_iff split: option.splits)

lemma page_result_items:
  "fst (fetch_page api p 3) =
     (if answers api p [] then Exhausted
      else if page_items api p = [] then Skipped else Extended (page_items api p))"
  by (auto simp: fetch_page_fst answers_iff page_items_eq page_end_def split: option.splits)

lemma fetch_pages_Cons:
  "fetch_pages api (p # ps) acc =
     (case fst (fetch_page api p 3) of
        Exhausted \<Rightarrow> (acc, snd (fetch_page api p 3))
      | Extended rs \<Rightarrow>
          (fst (fetch_pages api ps (acc @ rs)),
           snd (fetch_page api p 3) @ snd (fetch_pages api ps (acc @ rs)))
      | Skipped \<Rightarrow>
          (fst (fetch_pages api ps acc),
           snd (fetch_page api p 3) @ snd (fetch_pages api ps acc)))"
  by (simp split: prod.splits page_result.splits)

lemma batch_until_exhausted:
  "(\<And>p. p \<in> set ps \<Longrightarrow> \<not> answers api p []) \<Longrightarrow> answers api k [] \<Longrightarrow>
   fetch_pages api (ps @ k # qs) acc =
     (acc @ concat (map (page_items api) ps),
      concat (map (\<lambda>p. snd (fetch_page api p 3)) (ps @ [k])))"
proof (induction ps arbitrary: acc)
  case Nil
  then have "fst (fetch_page api k 3) = Exhausted"
    by (simp add: exhausted_iff)
  then show ?case
    by (simp add: fetch_pages_Cons del: fetch_pages.simps(2))
next
  case (Cons p ps)
  have "\<not> answers api p []" using Cons.prems(1) by simp
  then have "fst (fetch_page api p 3) =
      (if page_items api p = [] then Skipped else Extended (page_items api p))"
    by (simp add: page_result_items)
  moreover have "fetch_pages api (ps @ k # qs) acc' =
      (acc' @ concat (map (page_items api) ps),
       concat (map (\<lambda>p. snd (fetch_page api p 3)) (ps @ [k])))" for acc'
    using Cons.prems by (intro Cons.IH) auto
  ultimately show ?case
    by (simp add: fetch_pages_Cons del: fetch_pages.simps(2))
qed

lemma fetch_page_gets: "Get q \<in> set (snd (fetch_page api p r)) \<Longrightarrow> q = p"
  by (induction r) (auto split: option.splits prod.splits if_splits)

lemma fetch_page_gets_self: "Get p \<in> set (snd (fetch_page api p 3))"
proof -
  have "Get p \<in> set (snd (fetch_page api p (Suc r)))" for r
    by (simp split: option.splits prod.splits)
  then show ?thesis by (simp only: numeral_3_eq_3)
qed

lemma fetch_page_all_fail:
  assumes "attempt_fails (api page 0)" "attempt_fails (api page 1)" "attempt_fails (api page 2)"
  shows "fetch_page api page 3 =
           (Skipped, [Get page, Sleep 2000, Get page, Sleep 2000, Get page, Sleep 2000])"
proof -
  have f0: "try_body (api page (3 - Suc (Suc (Suc 0)))) = None"
    and f1: "try_body (api page (3 - Suc (Suc 0))) = None"
    and f2: "try_body (api page (3 - Suc 0)) = None"
    using assms by (simp_all add: attempt_fails_try_body)
  have s1: "fetch_page api page (Suc 0) = (Skipped, [Get page, Sleep 2000])"
    using fetch_page_retry [of api page 0] f2 by (simp del: fetch_page.simps(2))
  have s2: "fetch_page api page (Suc (Suc 0)) =
      (Skipped, [Get page, Sleep 2000, Get page, Sleep 2000])"
    using fetch_page_retry [of api page "Suc 0"] f1 s1 by (simp del: fetch_page.simps(2))
  have "fetch_page api page (Suc (Suc (Suc 0))) =
      (Skipped, [Get page, Sleep 2000, Get page, Sleep 2000, Get page, Sleep 2000])"
    using fetch_page_retry [of api page "Suc (Suc 0)"] f0 s2
    by (simp del: fetch_page.simps(2))
  then show ?thesis by (simp only: numeral_3_eq_3)
qed

lemma fetch_pages_skip_middle:
  "fst (fetch_page api p 3) = Skipped \<Longrightarrow>
   fst (fetch_pages api (ps @ p # qs) acc) = fst (fetch_pages api (ps @ qs) acc)"
  by (induction ps arbitrary: acc)
     (auto simp: fetch_pages_Cons simp del: fetch_pages.simps(2) split: page_result.splits)

lemma range_split: "start \<le> k \<Longrightarrow> k < start + n_pages \<Longrightarrow>
  [start .. start + n_pages - 1] = [start .. k - 1] @ k # [k + 1 .. start + n_pages - 1]"
  by (rule upto_split3) simp_all

section \<open>Lemmas about the Mirror Writer\<close>

lemma save_to_csv_None: "save_to_csv b None = Some (header # map csv_row b)"
  by (simp add: save_to_csv_def)

lemma save_to_csv_Some: "save_to_csv b (Some rows) = Some (rows @ map csv_row b)"
  by (simp add: save_to_csv_def)

lemma fold_save_Some: "fold save_to_csv bs (Some rows) = Some (rows @ concat (map (map csv_row) bs))"
  by (induction bs arbitrary: rows) (simp_all add: save_to_csv_Some)

lemma csv_row_not_header: "csv_row m \<noteq> header"
  by (simp add: csv_row_def header_def)

lemma header_not_data: "header \<notin> set (concat (map (map csv_row) bs))"
  using csv_row_not_header by (auto dest: sym)

section \<open>Lemmas about the Upsert Engine\<close>

subsection \<open>Statements and the committed tables\<close>

lemma execute_frame:
  "committed (snd (execute ins x db)) = committed db"
  "accepting (snd (execute ins x db)) = accepting db"
  by (simp_all add: execute_def split: sum.splits)

lemma execute_all_frame:
  "committed (snd (execute_all ins xs db)) = committed db
   \<and> accepting (snd (execute_all ins xs db)) = accepting db"
proof (induction xs arbitrary: db)
  case Nil
  then show ?case by simp
next
  case (Cons x xs)
  show ?case
  proof (cases "execute ins x db")
    case (Pair e db')
    with Cons [of db'] execute_frame [of ins x db] show ?thesis
      by (cases e) simp_all
  qed
qed

lemma flush_frame:
  "committed (conn (snd (flush s))) = committed (conn s)
   \<and> accepting (conn (snd (flush s))) = accepting (conn s)"
proof -
  obtain e1 c1 where 1: "execute_all insert_genre (new_genres s) (conn s) = (e1, c1)"
    by (cases "execute_all insert_genre (new_genres s) (conn s)")
  obtain e2 c2 where 2: "execute_all insert_movie (map fst (new_movies s)) c1 = (e2, c2)"
    by (cases "execute_all insert_movie (map fst (new_movies s)) c1")
  obtain e3 c3 where 3: "execute_all insert_link (new_links s) c2 = (e3, c3)"
    by (cases "execute_all insert_link (new_links s) c2")
  from execute_all_frame [of insert_genre "new_genres s" "conn s"] 1
  have f1: "committed c1 = committed (conn s)" "accepting c1 = accepting (conn s)" by simp_all
  from execute_all_frame [of insert_movie "map fst (new_movies s)" c1] 2
  have f2: "committed c2 = committed c1" "accepting c2 = accepting c1" by simp_all
  from execute_all_frame [of insert_link "new_links s" c2] 3
  have f3: "committed c3 = committed c2" "accepting c3 = accepting c2" by simp_all
  show ?thesis
    using 1 2 3 f1 f2 f3
    by (cases e1; cases e2; cases e3) (simp_all add: flush_def)
qed

lemma add_genres_frame [simp]:
  "conn (fst (add_genres gids s gs)) = conn s"
  "new_movies (fst (add_genres gids s gs)) = new_movies s"
  by (induction gids arbitrary: s gs) (auto simp: Let_def split: option.splits)

lemma stage_movie_conn [simp]: "conn (stage_movie uni m s) = conn s"
  by (simp add: stage_movie_def case_prod_beta)

lemma stage_movie_new_movies:
  "new_movies (stage_movie uni m s) =
     new_movies s @ [(new_movie uni m, snd (add_genres (m_genre_ids m) s []))]"
  by (simp add: stage_movie_def case_prod_beta)


subsection \<open>Flushes\<close>

lemma flush_pending_free: "pending_free s \<Longrightarrow> flush s = (None, s)"
  by (simp add: flush_def pending_free_def new_links_def)

lemma flush_success:
  "flush s = (None, s') \<Longrightarrow> pending_free s' \<and> genre_cache s' = genre_cache s"
  by (auto simp: flush_def pending_free_def split: prod.splits option.splits)

lemma session_get_pending_free:
  "pending_free s \<Longrightarrow>
   session_get s k = (Inr (find (\<lambda>r. movie_id r = k) (movies (in_tx (conn s)))), s)"
  by (simp add: session_get_def flush_pending_free)

lemma find_ids: "find (\<lambda>r. movie_id r = k) (movies t) = None \<longleftrightarrow> k \<notin> set (movie_ids t)"
  by (auto simp: find_None_iff movie_ids_def)

lemma finish_flush_ok:
  assumes "flush s = (None, s')"
  shows "finish uni ms s = finish uni ms s'"
proof -
  from flush_success [OF assms] have "flush s' = (None, s')"
    by (simp add: flush_pending_free)
  with assms show ?thesis
    by (cases ms) (simp_all add: finish_def commit_def session_get_def)
qed

lemma finish_flush_fails:
  assumes "flush s = (Some e, s')"
  shows "finish uni ms s = (Some e, conn s')"
  using assms by (cases ms) (simp_all add: finish_def commit_def session_get_def)

lemma finish_Nil:
  "pending_free s \<Longrightarrow> finish uni [] s = (None, (conn s)\<lparr>committed := in_tx (conn s)\<rparr>)"
  by (simp add: finish_def commit_def flush_pending_free)

lemma finish_Cons:
  assumes "pending_free s"
  shows "finish uni (m # ms) s =
     (if m_id m \<in> tx_ids s then finish uni ms s
      else (case flush (stage_movie uni m s) of
              (Some e, s') \<Rightarrow> (Some e, conn s')
            | (None, s') \<Rightarrow> finish uni ms s'))"
proof (cases "m_id m \<in> tx_ids s")
  case True
  then obtain r where "find (\<lambda>r. movie_id r = m_id m) (movies (in_tx (conn s))) = Some r"
    using find_ids [of "m_id m" "in_tx (conn s)"] by (auto simp: tx_ids_def)
  with True assms show ?thesis
    by (simp add: finish_def session_get_pending_free)
next
  case False
  then have nf: "find (\<lambda>r. movie_id r = m_id m) (movies (in_tx (conn s))) = None"
    using find_ids [of "m_id m" "in_tx (conn s)"] by (simp add: tx_ids_def)
  have step: "finish uni (m # ms) s = finish uni ms (stage_movie uni m s)"
    using assms nf by (simp add: finish_def session_get_pending_free)
  obtain e s' where f: "flush (stage_movie uni m s) = (e, s')"
    by (cases "flush (stage_movie uni m s)")
  show ?thesis
  proof (cases e)
    case None
    with f finish_flush_ok [of "stage_movie uni m s" s' uni ms] step False
    show ?thesis by simp
  next
    case (Some err)
    with f finish_flush_fails [of "stage_movie uni m s" err s' uni ms] step False
    show ?thesis by simp
  qed
qed

lemma save_batch_to_db_finish:
  "save_batch_to_db uni batch db =
     (if \<not> accepting db then (Some OperationalError, db)
      else finish uni batch (open_session db))"
  by (simp add: save_batch_to_db_def finish_def)

lemma open_session_facts [simp]:
  "pending_free (open_session db)"
  "conn (open_session db) = db\<lparr>in_tx := committed db\<rparr>"
  "tx_ids (open_session db) = set (movie_ids (committed db))"
  by (simp_all add: open_session_def pending_free_def tx_ids_def)


subsection \<open>What a flush does to the table of movies\<close>

lemma execute_all_genre_movies:
  "movies (in_tx (snd (execute_all insert_genre xs db))) = movies (in_tx db)"
proof (induction xs arbitrary: db)
  case Nil
  then show ?case by simp
next
  case (Cons x xs)
  show ?case
    using Cons [of "db\<lparr>in_tx := (in_tx db)\<lparr>genres := genres (in_tx db) @ [x]\<rparr>\<rparr>"]
    by (simp add: execute_def insert_genre_def)
qed

lemma execute_all_link_movies:
  "movies (in_tx (snd (execute_all insert_link xs db))) = movies (in_tx db)"
proof (induction xs arbitrary: db)
  case Nil
  then show ?case by simp
next
  case (Cons x xs)
  show ?case
    using Cons [of "db\<lparr>in_tx := (in_tx db)\<lparr>movies_genres := movies_genres (in_tx db) @ [x]\<rparr>\<rparr>"]
    by (simp add: execute_def insert_link_def)
qed

lemma execute_one_movie:
  "execute_all insert_movie [r] db = (e, db') \<Longrightarrow>
   (e = None \<longrightarrow>
      (\<exists>r'. movies (in_tx db') = movies (in_tx db) @ [r'] \<and> movie_id r' = movie_id r
            \<and> release_date r' = release_date r))
   \<and> (e \<noteq> None \<longrightarrow> db' = db)"
  by (auto simp: execute_def insert_movie_def split: sum.splits if_splits)

lemma stage_movie_pending:
  "pending_free s \<Longrightarrow> map fst (new_movies (stage_movie uni m s)) = [new_movie uni m]"
  by (simp add: stage_movie_new_movies pending_free_def)

lemma flush_stage:
  assumes "pending_free s" and "flush (stage_movie uni m s) = (e, s')"
  shows "(e = None \<longrightarrow>
           (\<exists>r'. movies (in_tx (conn s')) = movies (in_tx (conn s)) @ [r']
                 \<and> movie_id r' = m_id m
                 \<and> release_date r' = parse_date_safe uni (m_release_date m)))
       \<and> (movies (in_tx (conn s')) = movies (in_tx (conn s))
           \<or> (\<exists>r'. movies (in_tx (conn s')) = movies (in_tx (conn s)) @ [r']
                   \<and> movie_id r' = m_id m))"
proof -
  let ?S = "stage_movie uni m s"
  obtain e1 c1 where 1: "execute_all insert_genre (new_genres ?S) (conn ?S) = (e1, c1)"
    by (cases "execute_all insert_genre (new_genres ?S) (conn ?S)")
  obtain e2 c2 where 2: "execute_all insert_movie [new_movie uni m] c1 = (e2, c2)"
    by (cases "execute_all insert_movie [new_movie uni m] c1")
  obtain e3 c3 where 3: "execute_all insert_link (new_links ?S) c2 = (e3, c3)"
    by (cases "execute_all insert_link (new_links ?S) c2")
  have m1: "movies (in_tx c1) = movies (in_tx (conn s))"
    using execute_all_genre_movies [of "new_genres ?S" "conn ?S"] 1 by simp
  have m3: "movies (in_tx c3) = movies (in_tx c2)"
    using execute_all_link_movies [of "new_links ?S" c2] 3 by simp
  note m2 = execute_one_movie [OF 2]
  have ids: "movie_id (new_movie uni m) = m_id m"
    "release_date (new_movie uni m) = parse_date_safe uni (m_release_date m)"
    by (simp_all add: new_movie_def)
  have fl: "flush ?S =
      (case e1 of Some x \<Rightarrow> (Some x, ?S\<lparr>conn := c1\<rparr>)
       | None \<Rightarrow> (case e2 of Some x \<Rightarrow> (Some x, ?S\<lparr>conn := c2\<rparr>)
       | None \<Rightarrow> (case e3 of Some x \<Rightarrow> (Some x, ?S\<lparr>conn := c3\<rparr>)
       | None \<Rightarrow> (None, ?S\<lparr>conn := c3, new_genres := [], new_movies := []\<rparr>))))"
    using 1 2 3 stage_movie_pending [OF assms(1), of uni m]
    by (simp add: flush_def split: option.splits)
  show ?thesis
  proof (cases e1)
    case (Some x)
    with fl assms(2) m1 show ?thesis by auto
  next
    case None
    note n1 = this
    show ?thesis
    proof (cases e2)
      case (Some x)
      with fl assms(2) m1 m2 n1 show ?thesis by auto
    next
      case None
      with m2 m1 ids obtain r' where r': "movies (in_tx c2) = movies (in_tx (conn s)) @ [r']"
        "movie_id r' = m_id m" "release_date r' = parse_date_safe uni (m_release_date m)"
        by auto
      from fl assms(2) n1 None have "conn s' = c3" by (cases e3) auto
      with m3 r' show ?thesis by auto
    qed
  qed
qed

lemma flush_stage_ok:
  assumes "pending_free s" and "flush (stage_movie uni m s) = (None, s')"
  shows "pending_free s'" and "tx_ids s' = insert (m_id m) (tx_ids s)"
    and "\<exists>r'. movies (in_tx (conn s')) = movies (in_tx (conn s)) @ [r']
           \<and> movie_id r' = m_id m
           \<and> release_date r' = parse_date_safe uni (m_release_date m)"
proof -
  show "pending_free s'" using flush_success [OF assms(2)] by simp
  from flush_stage [OF assms] show rows: "\<exists>r'. movies (in_tx (conn s')) = movies (in_tx (conn s)) @ [r']
           \<and> movie_id r' = m_id m
           \<and> release_date r' = parse_date_safe uni (m_release_date m)"
    by simp
  then show "tx_ids s' = insert (m_id m) (tx_ids s)"
    by (auto simp: tx_ids_def movie_ids_def)
qed

subsection \<open>The rest of a call\<close>

lemma finish_all_known:
  "pending_free s \<Longrightarrow> m_id ` set ms \<subseteq> tx_ids s \<Longrightarrow>
   finish uni ms s = (None, (conn s)\<lparr>committed := in_tx (conn s)\<rparr>)"
  by (induction ms) (simp_all add: finish_Nil finish_Cons)

lemma finish_success:
  "pending_free s \<Longrightarrow> finish uni ms s = (None, db') \<Longrightarrow>
   tx_ids s \<union> m_id ` set ms \<subseteq> set (movie_ids (committed db'))
   \<and> in_tx db' = committed db' \<and> accepting db' = accepting (conn s)"
proof (induction ms arbitrary: s)
  case Nil
  then show ?case by (auto simp: finish_Nil tx_ids_def)
next
  case (Cons m ms)
  show ?case
  proof (cases "m_id m \<in> tx_ids s")
    case True
    with Cons.prems have "finish uni ms s = (None, db')" by (simp add: finish_Cons)
    from Cons.IH [OF Cons.prems(1) this] True show ?thesis by auto
  next
    case False
    obtain e s' where f: "flush (stage_movie uni m s) = (e, s')"
      by (cases "flush (stage_movie uni m s)")
    with Cons.prems False have e: "e = None" and rest: "finish uni ms s' = (None, db')"
      by (auto simp: finish_Cons split: option.splits)
    from f e have f': "flush (stage_movie uni m s) = (None, s')" by simp
    note ok = flush_stage_ok [OF Cons.prems(1) f']
    from flush_frame [of "stage_movie uni m s"] f'
    have "accepting (conn s') = accepting (conn s)" by simp
    with Cons.IH [OF ok(1) rest] ok(2) show ?thesis by auto
  qed
qed

lemma finish_first_occurrences:
  "pending_free s \<Longrightarrow> set seen \<subseteq> tx_ids s \<Longrightarrow>
   finish uni (first_occurrences seen ms) s = finish uni ms s"
proof (induction ms arbitrary: seen s)
  case Nil
  then show ?case by simp
next
  case (Cons m ms)
  show ?case
  proof (cases "m_id m \<in> tx_ids s")
    case True
    have "finish uni (first_occurrences (m_id m # seen) ms) s = finish uni ms s"
      using Cons.prems True by (intro Cons.IH) simp_all
    moreover have "finish uni (first_occurrences seen ms) s = finish uni ms s"
      using Cons.prems by (intro Cons.IH)
    ultimately show ?thesis
      using True Cons.prems(1) by (simp add: finish_Cons)
  next
    case False
    then have unseen: "m_id m \<notin> set seen" using Cons.prems(2) by auto
    obtain e s' where f: "flush (stage_movie uni m s) = (e, s')"
      by (cases "flush (stage_movie uni m s)")
    show ?thesis
    proof (cases e)
      case (Some err)
      with f False unseen Cons.prems(1) show ?thesis by (simp add: finish_Cons)
    next
      case None
      with f have f': "flush (stage_movie uni m s) = (None, s')" by simp
      note ok = flush_stage_ok [OF Cons.prems(1) f']
      have "finish uni (first_occurrences (m_id m # seen) ms) s' = finish uni ms s'"
        using ok Cons.prems(2) by (intro Cons.IH) auto
      with f' False unseen Cons.prems(1) show ?thesis by (simp add: finish_Cons)
    qed
  qed
qed

lemma first_occurrences_fresh: "x \<in> set (first_occurrences seen ms) \<Longrightarrow> m_id x \<notin> set seen"
  by (induction ms arbitrary: seen) (fastforce split: if_splits)+

lemma finish_rows:
  "pending_free s \<Longrightarrow> set seen \<subseteq> tx_ids s \<Longrightarrow> finish uni ms s = (None, db') \<Longrightarrow>
   map (\<lambda>r. (movie_id r, release_date r)) (movies (committed db')) =
     map (\<lambda>r. (movie_id r, release_date r)) (movies (in_tx (conn s))) @
     map (\<lambda>m. (m_id m, parse_date_safe uni (m_release_date m)))
       (filter (\<lambda>m. m_id m \<notin> tx_ids s) (first_occurrences seen ms))"
proof (induction ms arbitrary: seen s)
  case Nil
  then show ?case by (auto simp: finish_Nil)
next
  case (Cons m ms)
  show ?case
  proof (cases "m_id m \<in> tx_ids s")
    case True
    with Cons.prems have rest: "finish uni ms s = (None, db')" by (simp add: finish_Cons)
    show ?thesis
    proof (cases "m_id m \<in> set seen")
      case True
      with Cons.IH [OF Cons.prems(1,2) rest] show ?thesis by simp
    next
      case False
      have "set (m_id m # seen) \<subseteq> tx_ids s" using True Cons.prems(2) by simp
      from Cons.IH [OF Cons.prems(1) this rest] True False show ?thesis by simp
    qed
  next
    case False
    then have unseen: "m_id m \<notin> set seen" using Cons.prems(2) by auto
    obtain e s' where f: "flush (stage_movie uni m s) = (e, s')"
      by (cases "flush (stage_movie uni m s)")
    with Cons.prems False have e: "e = None" and rest: "finish uni ms s' = (None, db')"
      by (auto simp: finish_Cons split: option.splits)
    from f e have f': "flush (stage_movie uni m s) = (None, s')" by simp
    note ok = flush_stage_ok [OF Cons.prems(1) f']
    have sub: "set (m_id m # seen) \<subseteq> tx_ids s'" using ok(2) Cons.prems(2) by auto
    have same: "filter (\<lambda>x. m_id x \<notin> tx_ids s') (first_occurrences (m_id m # seen) ms) =
        filter (\<lambda>x. m_id x \<notin> tx_ids s) (first_occurrences (m_id m # seen) ms)"
      by (rule filter_cong) (auto simp: ok(2) dest: first_occurrences_fresh)
    from Cons.IH [OF ok(1) sub rest] ok(3) same False unseen show ?thesis
      by auto
  qed
qed

lemma extends_refl: "extends old old"
  by (simp add: extends_def pk_ok_def)

lemma extends_snoc: "extends old now \<Longrightarrow> k \<notin> set now \<Longrightarrow> extends old (now @ [k])"
proof -
  assume a: "extends old now" and k: "k \<notin> set now"
  from a have now: "now = old @ drop (length old) now"
    by (metis append_take_drop_id extends_def)
  then have len: "length old \<le> length now" by (metis le_add1 length_append)
  from k now have "k \<notin> set old" "k \<notin> set (drop (length old) now)"
    by (metis Un_iff set_append)+
  with a len show ?thesis
    by (auto simp: extends_def pk_ok_def)
qed

lemma finish_extends:
  "pending_free s \<Longrightarrow> extends old (movie_ids (in_tx (conn s))) \<Longrightarrow>
   extends old (movie_ids (in_tx (snd (finish uni ms s))))"
proof (induction ms arbitrary: s)
  case Nil
  then show ?case by (simp add: finish_Nil)
next
  case (Cons m ms)
  show ?case
  proof (cases "m_id m \<in> tx_ids s")
    case True
    with Cons show ?thesis by (simp add: finish_Cons)
  next
    case False
    obtain e s' where f: "flush (stage_movie uni m s) = (e, s')"
      by (cases "flush (stage_movie uni m s)")
    from flush_stage [OF Cons.prems(1) f]
    have "movie_ids (in_tx (conn s')) = movie_ids (in_tx (conn s))
        \<or> movie_ids (in_tx (conn s')) = movie_ids (in_tx (conn s)) @ [m_id m]"
      by (auto simp: movie_ids_def)
    with Cons.prems(2) False have ext: "extends old (movie_ids (in_tx (conn s')))"
      by (auto simp: tx_ids_def intro: extends_snoc)
    show ?thesis
    proof (cases e)
      case (Some err)
      with f False Cons.prems(1) ext show ?thesis by (simp add: finish_Cons)
    next
      case None
      with f have "pending_free s'" using flush_success by blast
      from Cons.IH [OF this ext] f None False Cons.prems(1) show ?thesis
        by (simp add: finish_Cons)
    qed
  qed
qed



lemma save_batch_to_db_commits:
  assumes "save_batch_to_db uni batch db = (None, db')"
  shows "accepting db" and "finish uni batch (open_session db) = (None, db')"
    and "in_tx db' = committed db'" and "accepting db'"
    and "m_id ` set batch \<subseteq> set (movie_ids (committed db'))"
proof -
  from assms show a: "accepting db"
    by (cases "accepting db") (simp_all add: save_batch_to_db_def)
  with assms show f: "finish uni batch (open_session db) = (None, db')"
    by (simp add: save_batch_to_db_finish)
  from finish_success [OF _ f] a
  show "in_tx db' = committed db'" "accepting db'"
    "m_id ` set batch \<subseteq> set (movie_ids (committed db'))"
    by simp_all
qed

subsection \<open>The primary key of \<open>movies_genres\<close>\<close>

lemma execute_links:
  assumes "distinct (movies_genres (in_tx db))"
  shows "distinct (movies_genres (in_tx (snd (execute insert_genre g db))))"
    and "distinct (movies_genres (in_tx (snd (execute insert_movie r db))))"
    and "distinct (movies_genres (in_tx (snd (execute insert_link l db))))"
  using assms
  by (auto simp: execute_def insert_genre_def insert_movie_def insert_link_def
           split: sum.splits if_splits)

lemma execute_all_genre_links:
  "distinct (movies_genres (in_tx db)) \<Longrightarrow>
   distinct (movies_genres (in_tx (snd (execute_all insert_genre xs db))))"
proof (induction xs arbitrary: db)
  case Nil
  then show ?case by simp
next
  case (Cons x xs)
  show ?case
  proof (cases "execute insert_genre x db")
    case (Pair e db')
    with Cons.IH [of db'] execute_links(1) [OF Cons.prems, of x] show ?thesis
      by (cases e) simp_all
  qed
qed

lemma execute_all_movie_links:
  "distinct (movies_genres (in_tx db)) \<Longrightarrow>
   distinct (movies_genres (in_tx (snd (execute_all insert_movie xs db))))"
proof (induction xs arbitrary: db)
  case Nil
  then show ?case by simp
next
  case (Cons x xs)
  show ?case
  proof (cases "execute insert_movie x db")
    case (Pair e db')
    with Cons.IH [of db'] execute_links(2) [OF Cons.prems, of x] show ?thesis
      by (cases e) simp_all
  qed
qed

lemma execute_all_link_links:
  "distinct (movies_genres (in_tx db)) \<Longrightarrow>
   distinct (movies_genres (in_tx (snd (execute_all insert_link xs db))))"
proof (induction xs arbitrary: db)
  case Nil
  then show ?case by simp
next
  case (Cons x xs)
  show ?case
  proof (cases "execute insert_link x db")
    case (Pair e db')
    with Cons.IH [of db'] execute_links(3) [OF Cons.prems, of x] show ?thesis
      by (cases e) simp_all
  qed
qed

lemma flush_links:
  assumes "distinct (movies_genres (in_tx (conn s)))"
  shows "distinct (movies_genres (in_tx (conn (snd (flush s)))))"
proof -
  obtain e1 c1 where 1: "execute_all insert_genre (new_genres s) (conn s) = (e1, c1)"
    by (cases "execute_all insert_genre (new_genres s) (conn s)")
  obtain e2 c2 where 2: "execute_all insert_movie (map fst (new_movies s)) c1 = (e2, c2)"
    by (cases "execute_all insert_movie (map fst (new_movies s)) c1")
  obtain e3 c3 where 3: "execute_all insert_link (new_links s) c2 = (e3, c3)"
    by (cases "execute_all insert_link (new_links s) c2")
  from execute_all_genre_links [OF assms, of "new_genres s"] 1
  have d1: "distinct (movies_genres (in_tx c1))" by simp
  from execute_all_movie_links [OF d1, of "map fst (new_movies s)"] 2
  have d2: "distinct (movies_genres (in_tx c2))" by simp
  from execute_all_link_links [OF d2, of "new_links s"] 3
  have d3: "distinct (movies_genres (in_tx c3))" by simp
  show ?thesis
    using 1 2 3 d1 d2 d3
    by (cases e1; cases e2; cases e3) (simp_all add: flush_def)
qed

lemma save_loop_links:
  "distinct (movies_genres (in_tx (conn s))) \<Longrightarrow>
   distinct (movies_genres (in_tx (conn (snd (save_loop uni ms s)))))"
proof (induction ms arbitrary: s)
  case Nil
  then show ?case by simp
next
  case (Cons m ms)
  obtain e s' where f: "flush s = (e, s')" by (cases "flush s")
  from flush_links [OF Cons.prems] f
  have d: "distinct (movies_genres (in_tx (conn s')))" by simp
  show ?case
  proof (cases e)
    case (Some err)
    with f d show ?thesis by (simp add: session_get_def)
  next
    case None
    show ?thesis
    proof (cases "find (\<lambda>r. movie_id r = m_id m) (movies (in_tx (conn s')))")
      case None
      with \<open>e = None\<close> f d Cons.IH [of "stage_movie uni m s'"] show ?thesis
        by (simp add: session_get_def)
    next
      case (Some r)
      with \<open>e = None\<close> f d Cons.IH [of s'] show ?thesis
        by (simp add: session_get_def)
    qed
  qed
qed

lemma finish_links:
  assumes "distinct (movies_genres (in_tx (conn s)))" and "finish uni ms s = (None, db')"
  shows "distinct (movies_genres (committed db'))"
proof -
  obtain e1 s1 where 1: "save_loop uni ms s = (e1, s1)" by (cases "save_loop uni ms s")
  obtain e2 s2 where 2: "flush s1 = (e2, s2)" by (cases "flush s1")
  from save_loop_links [OF assms(1), of uni ms] 1
  have d1: "distinct (movies_genres (in_tx (conn s1)))" by simp
  from flush_links [OF d1] 2
  have d2: "distinct (movies_genres (in_tx (conn s2)))" by simp
  from assms(2) 1 2 d2 show ?thesis
    by (cases e1; cases e2) (auto simp: finish_def commit_def)
qed

section \<open>Lemmas about the Driver\<close>

lemma main_loop_empty:
  "page \<le> MAXP \<Longrightarrow> fst (fetch_movies_batch api page n) = [] \<Longrightarrow>
   main_loop uni api MAXP n page w =
     (Completed, w\<lparr>trace := trace w @ snd (fetch_movies_batch api page n)\<rparr>)"
  by (subst main_loop.simps) (simp add: Let_def)


lemma main_loop_ok:
  "page \<le> MAXP \<Longrightarrow> fst (fetch_movies_batch api page n) \<noteq> [] \<Longrightarrow>
   save_batch_to_db uni (fst (fetch_movies_batch api page n)) (database w) = (None, db') \<Longrightarrow>
   main_loop uni api MAXP n page w =
     main_loop uni api MAXP n (page + n)
       (w\<lparr>trace := trace w @ snd (fetch_movies_batch api page n),
          csv_file := save_to_csv (fst (fetch_movies_batch api page n)) (csv_file w),
          database := db'\<rparr>)"
  by (subst main_loop.simps) (simp add: Let_def)

section \<open>Lemmas about dates\<close>

lemma digit_char: "n < 10 \<Longrightarrow> of_char (''0123456789'' ! n) = (48 + n :: nat)"
proof -
  assume "n < 10"
  then have "n \<in> {0, 1, 2, 3, 4, 5, 6, 7, 8, 9}"
    by (simp add: insert_iff) arith
  then show ?thesis by (elim insertE emptyE) simp_all
qed

lemma text_of_digit: "n < 10 \<Longrightarrow> text_of (digits n) = [48 + n]"
  by (simp add: digits.simps text_of_def digit_char)

lemma text_of_two_digits:
  "10 \<le> n \<Longrightarrow> n < 100 \<Longrightarrow> text_of (digits n) = [48 + n div 10, 48 + n mod 10]"
proof -
  assume a: "10 \<le> n" "n < 100"
  then have d: "n div 10 < 10" "n mod 10 < 10" by simp_all
  from a have "digits n = digits (n div 10) @ [''0123456789'' ! (n mod 10)]"
    by (subst digits.simps) simp
  moreover from d(1) have "digits (n div 10) = [''0123456789'' ! (n div 10)]"
    by (subst digits.simps) simp
  ultimately show ?thesis
    using d by (simp add: text_of_def digit_char)
qed

lemma text_of_Cons: "text_of (c # cs) = of_char c # text_of cs"
  by (simp add: text_of_def)

lemma month_spelling_iff:
  "month_spelling M m \<longleftrightarrow>
     1 \<le> m \<and> m \<le> 12
     \<and> ((m < 10 \<and> (M = [48 + m] \<or> M = [48, 48 + m])) \<or> (10 \<le> m \<and> M = [49, 38 + m]))"
proof (cases "m < 10")
  case True
  then show ?thesis
    by (auto simp: month_spelling_def text_of_digit text_of_Cons)
next
  case False
  show ?thesis
  proof (cases "m \<le> 12")
    case True
    with False have "m = 10 \<or> m = 11 \<or> m = 12" by arith
    then show ?thesis
      by (elim disjE) (simp_all add: month_spelling_def text_of_two_digits)
  next
    case False
    then show ?thesis by (simp add: month_spelling_def)
  qed
qed

lemma day_spelling_iff:
  "day_spelling uni D d \<longleftrightarrow>
     1 \<le> d \<and> d \<le> 31
     \<and> ((d < 10 \<and> (D = [48 + d] \<or> D = [48, 48 + d] \<or> D = [32, 48 + d]))
        \<or> (10 \<le> d \<and> D = [48 + d div 10, 48 + d mod 10])
        \<or> (10 \<le> d \<and> d < 30
            \<and> (\<exists>c. is_decimal uni c \<and> decimal_value uni c = d mod 10
                     \<and> D = [48 + d div 10, c])))"
proof (cases "d < 10")
  case True
  then show ?thesis
    by (auto simp: day_spelling_def text_of_digit text_of_Cons)
next
  case False
  show ?thesis
  proof (cases "d \<le> 31")
    case True
    with False have "text_of (digits d) = [48 + d div 10, 48 + d mod 10]"
      by (intro text_of_two_digits) simp_all
    with False True show ?thesis
      by (auto simp: day_spelling_def)
  next
    case False
    then show ?thesis by (simp add: day_spelling_def)
  qed
qed

lemma ascii_decimal:
  "48 \<le> c \<Longrightarrow> c \<le> 57 \<Longrightarrow> is_decimal uni c \<and> decimal_value uni c = c - 48"
  by (simp add: is_decimal_def decimal_value_def)

lemma decimal_value_less: "is_decimal uni c \<Longrightarrow> decimal_value uni c < 10"
  by (auto simp: is_decimal_def decimal_value_def split: option.splits)

lemma num_one: "num uni [a] = decimal_value uni a"
  by (simp add: num_def)

lemma num_two: "num uni [a, b] = 10 * decimal_value uni a + decimal_value uni b"
  by (simp add: num_def)


lemma digit_range:
  "49 \<le> b \<Longrightarrow> b \<le> 57 \<Longrightarrow> m = b - 48 \<Longrightarrow> 1 \<le> m \<and> m < 10 \<and> b = 48 + m"
  for b m :: nat
  by arith

lemma month_ok:
  "month_spelling M m \<Longrightarrow> match_m uni (M @ 45 # rest) = Some (m, 45 # rest)"
  by (auto simp: month_spelling_iff num_one num_two decimal_value_def)

lemma month_sound:
  assumes "match_m uni s = Some (m, rest)"
  shows "\<exists>M. s = M @ rest \<and> month_spelling M m"
proof (cases "(uni, s)" rule: match_m.cases)
  case (1 uni' a b r)
  then have s: "s = a # b # r" by simp
  from assms consider
      (long) "a = 49" "48 \<le> b" "b \<le> 50" "m = num uni [a, b]" "rest = r"
    | (padded) "a = 48" "49 \<le> b" "b \<le> 57" "m = num uni [a, b]" "rest = r"
    | (short) "49 \<le> a" "a \<le> 57" "m = num uni [a]" "rest = b # r"
    unfolding s by (auto split: if_splits)
  then show ?thesis
  proof cases
    case long
    then have "b = 48 \<or> b = 49 \<or> b = 50" by arith
    with long have "month_spelling [a, b] m"
      by (elim disjE) (simp_all add: month_spelling_iff num_two decimal_value_def)
    with long s show ?thesis by (intro exI [of _ "[a, b]"]) simp
  next
    case padded
    then have "m = b - 48" by (simp add: num_two decimal_value_def)
    from digit_range [OF padded(2,3) this] padded(1) have "month_spelling [a, b] m"
      by (simp add: month_spelling_iff)
    with padded s show ?thesis by (intro exI [of _ "[a, b]"]) simp
  next
    case short
    then have "m = a - 48" by (simp add: num_one decimal_value_def)
    from digit_range [OF short(1,2) this] have "month_spelling [a] m"
      by (simp add: month_spelling_iff)
    with short s show ?thesis by (intro exI [of _ "[a]"]) simp
  qed
next
  case (2 uni' a)
  with assms have f: "49 \<le> a" "a \<le> 57" "m = num uni [a]" "rest = []" "s = [a]"
    by (auto split: if_splits)
  then have "m = a - 48" by (simp add: num_one decimal_value_def)
  from digit_range [OF f(1,2) this] have "month_spelling [a] m"
    by (simp add: month_spelling_iff)
  with f show ?thesis by (intro exI [of _ "[a]"]) simp
next
  case (3 uni')
  with assms show ?thesis by simp
qed

lemma day_ok:
  assumes "day_spelling uni D d"
  shows "match_d uni D = Some (d, [])"
proof -
  from assms have range: "1 \<le> d" "d \<le> 31" by (simp_all add: day_spelling_iff)
  from assms consider
      (one) "d < 10" "D = [48 + d]"
    | (zero) "d < 10" "D = [48, 48 + d]"
    | (space) "d < 10" "D = [32, 48 + d]"
    | (two) "10 \<le> d" "D = [48 + d div 10, 48 + d mod 10]"
    | (other) c where "10 \<le> d" "d < 30" "is_decimal uni c" "decimal_value uni c = d mod 10"
        "D = [48 + d div 10, c]"
    by (auto simp: day_spelling_iff)
  then show ?thesis
  proof cases
    case one
    with range show ?thesis by (simp add: num_one decimal_value_def)
  next
    case zero
    with range show ?thesis by (simp add: num_two decimal_value_def)
  next
    case space
    with range show ?thesis by (simp add: num_one decimal_value_def)
  next
    case two
    define t u where "t = d div 10" and "u = d mod 10"
    then have d: "d = 10 * t + u" and u: "u < 10" by simp_all
    with range two(1) have t: "t = 1 \<or> t = 2 \<or> (t = 3 \<and> u \<le> 1)" by arith
    from two(2) have D: "D = [48 + t, 48 + u]" by (simp add: t_def u_def)
    from t u show ?thesis
      unfolding D d
      by (elim disjE conjE) (simp_all add: num_two decimal_value_def is_decimal_def)
  next
    case other
    define t where "t = d div 10"
    with other have d: "d = 10 * t + decimal_value uni c" and t: "t = 1 \<or> t = 2"
      by auto
    from other(5) have D: "D = [48 + t, c]" by (simp add: t_def)
    from t other(3) show ?thesis
      unfolding D d
      by (elim disjE) (simp_all add: num_two decimal_value_def)
  qed
qed

lemma day_sound:
  assumes "match_d uni s = Some (d, [])"
  shows "day_spelling uni s d"
proof (cases "(uni, s)" rule: match_d.cases)
  case (1 uni' a b r)
  then have s: "s = a # b # r" by simp
  from assms consider
      (thirty) "a = 51" "48 \<le> b" "b \<le> 49" "d = num uni [a, b]" "r = []"
    | (tens) "49 \<le> a" "a \<le> 50" "is_decimal uni b" "d = num uni [a, b]" "r = []"
    | (padded) "a = 48" "49 \<le> b" "b \<le> 57" "d = num uni [a, b]" "r = []"
    | (space) "a = 32" "49 \<le> b" "b \<le> 57" "d = num uni [b]" "r = []"
    unfolding s by (auto split: if_splits)
  then show ?thesis
  proof cases
    case thirty
    then have "b = 48 \<or> b = 49" by arith
    with thirty s show ?thesis
      by (elim disjE) (simp_all add: day_spelling_iff num_two decimal_value_def)
  next
    case tens
    from decimal_value_less [OF tens(3)] have v: "decimal_value uni b < 10" .
    from tens(1,2) have a: "a = 49 \<or> a = 50" by arith
    define u where "u = decimal_value uni b"
    from a tens(4) have d: "d = 10 * (a - 48) + u"
      by (auto simp: num_two decimal_value_def u_def)
    from a d v have f: "10 \<le> d" "d < 30" "d div 10 = a - 48" "d mod 10 = u"
      by (auto simp: u_def)
    have "\<exists>c. is_decimal uni c \<and> decimal_value uni c = d mod 10
        \<and> [a, b] = [48 + d div 10, c]"
      using a f tens(3) by (intro exI [of _ b]) (auto simp: u_def)
    with f tens(5) s show ?thesis
      by (simp add: day_spelling_iff)
  next
    case padded
    then have d: "d = b - 48" by (simp add: num_two decimal_value_def)
    from digit_range [OF padded(2,3) d] padded s show ?thesis
      by (simp add: day_spelling_iff)
  next
    case space
    then have d: "d = b - 48" by (simp add: num_one decimal_value_def)
    from digit_range [OF space(2,3) d] space s show ?thesis
      by (simp add: day_spelling_iff)
  qed
next
  case (2 uni' a)
  with assms have f: "49 \<le> a" "a \<le> 57" "d = num uni [a]" "s = [a]"
    by (auto split: if_splits)
  then have "d = a - 48" by (simp add: num_one decimal_value_def)
  from digit_range [OF f(1,2) this] f(4) show ?thesis
    by (simp add: day_spelling_iff)
next
  case (3 uni')
  with assms show ?thesis by simp
qed

lemma four_elems: "length Y = 4 \<Longrightarrow> \<exists>a b c d. Y = [a, b, c, d]"
  by (auto simp: length_Suc_conv numeral_eq_Suc)

lemma year_ok:
  assumes "year_spelling uni Y y"
  shows "match_Y uni (Y @ rest) = Some (y, rest)"
proof -
  from assms have "length Y = 4" by (simp add: year_spelling_def)
  from four_elems [OF this] obtain a b c d where Y: "Y = [a, b, c, d]" by auto
  with assms show ?thesis by (simp add: year_spelling_def)
qed

lemma year_sound:
  assumes "match_Y uni s = Some (y, rest)"
  shows "\<exists>Y. s = Y @ rest \<and> year_spelling uni Y y"
proof (cases "(uni, s)" rule: match_Y.cases)
  case (1 uni' a b c d r)
  with assms have "year_spelling uni [a, b, c, d] y" "s = [a, b, c, d] @ rest"
    by (auto simp: year_spelling_def split: if_splits)
  then show ?thesis by blast
qed (use assms in auto)

lemma match_dash_iff: "match_dash s = Some rest \<longleftrightarrow> s = 45 # rest"
  by (cases s) auto

lemma strptime_iff:
  "strptime uni s = Some (Date y m d) \<longleftrightarrow>
     date_spelling uni s y m d \<and> 1 \<le> y \<and> d \<le> days_in_month y m"
proof
  assume a: "strptime uni s = Some (Date y m d)"
  then obtain s1 s2 s3 s4 where
      Y: "match_Y uni s = Some (y, s1)" and d1: "match_dash s1 = Some s2"
      and M: "match_m uni s2 = Some (m, s3)" and d2: "match_dash s3 = Some s4"
      and D: "match_d uni s4 = Some (d, [])" and ok: "1 \<le> y" "d \<le> days_in_month y m"
    by (auto simp: strptime_def split: option.splits prod.splits if_splits)
  from year_sound [OF Y] obtain YY where YY: "s = YY @ s1" "year_spelling uni YY y" by auto
  from month_sound [OF M] obtain MM where MM: "s2 = MM @ s3" "month_spelling MM m" by auto
  from day_sound [OF D] have DD: "day_spelling uni s4 d" .
  from d1 d2 have "s1 = 45 # s2" "s3 = 45 # s4" by (simp_all add: match_dash_iff)
  with YY MM have "s = YY @ 45 # MM @ 45 # s4" by simp
  with YY(2) MM(2) DD have "date_spelling uni s y m d"
    unfolding date_spelling_def by blast
  with ok show "date_spelling uni s y m d \<and> 1 \<le> y \<and> d \<le> days_in_month y m" by simp
next
  assume a: "date_spelling uni s y m d \<and> 1 \<le> y \<and> d \<le> days_in_month y m"
  then obtain YY MM DD where s: "s = YY @ 45 # MM @ 45 # DD"
      and sp: "year_spelling uni YY y" "month_spelling MM m" "day_spelling uni DD d"
    unfolding date_spelling_def by blast
  from a year_ok [OF sp(1), of "45 # MM @ 45 # DD"] month_ok [OF sp(2), of uni DD]
    day_ok [OF sp(3)]
  show "strptime uni s = Some (Date y m d)"
    by (simp add: strptime_def s)
qed

lemma strptime_None_iff:
  "strptime uni s = None \<longleftrightarrow>
     \<not> (\<exists>y m d. date_spelling uni s y m d \<and> 1 \<le> y \<and> d \<le> days_in_month y m)"
proof
  assume none: "strptime uni s = None"
  show "\<not> (\<exists>y m d. date_spelling uni s y m d \<and> 1 \<le> y \<and> d \<le> days_in_month y m)"
  proof
    assume "\<exists>y m d. date_spelling uni s y m d \<and> 1 \<le> y \<and> d \<le> days_in_month y m"
    then obtain y m d
      where "date_spelling uni s y m d \<and> 1 \<le> y \<and> d \<le> days_in_month y m" by blast
    then have "strptime uni s = Some (Date y m d)" by (simp only: strptime_iff)
    with none show False by simp
  qed
next
  assume no: "\<not> (\<exists>y m d. date_spelling uni s y m d \<and> 1 \<le> y \<and> d \<le> days_in_month y m)"
  show "strptime uni s = None"
  proof (cases "strptime uni s")
    case None
    then show ?thesis .
  next
    case (Some dt)
    obtain y m d where "dt = Date y m d" by (cases dt)
    with Some have "date_spelling uni s y m d \<and> 1 \<le> y \<and> d \<le> days_in_month y m"
      by (simp only: strptime_iff)
    with no show ?thesis by blast
  qed
qed


lemma fold_ascii:
  "list_all ascii_digit xs \<Longrightarrow>
   fold (\<lambda>c n. 10 * n + decimal_value uni c) xs k = fold (\<lambda>c n. 10 * n + (c - 48)) xs k"
  by (induction xs arbitrary: k) (simp_all add: ascii_digit_def decimal_value_def)

lemma num_ascii: "list_all ascii_digit xs \<Longrightarrow> num uni xs = ascii_num xs"
  by (simp add: num_def ascii_num_def fold_ascii)

lemma ascii_is_decimal: "list_all ascii_digit xs \<Longrightarrow> list_all (is_decimal uni) xs"
  by (induction xs) (simp_all add: ascii_digit_def is_decimal_def)

lemma ten_elems:
  "length s = 10 \<Longrightarrow> \<exists>a b c d e f g h i j. s = [a, b, c, d, e, f, g, h, i, j]"
  by (auto simp: length_Suc_conv numeral_eq_Suc)

lemma two_digit_month:
  assumes "ascii_digit f" and "ascii_digit g"
    and "1 \<le> ascii_num [f, g]" and "ascii_num [f, g] \<le> 12"
  shows "month_spelling [f, g] (ascii_num [f, g])"
proof -
  define m where "m = ascii_num [f, g]"
  then have m: "m = 10 * (f - 48) + (g - 48)" by (simp add: ascii_num_def)
  from assms(1,2) have r: "48 \<le> f" "f \<le> 57" "48 \<le> g" "g \<le> 57"
    by (simp_all add: ascii_digit_def)
  from assms(3,4) have "1 \<le> m" "m \<le> 12" by (simp_all add: m_def)
  with m r have "(m < 10 \<and> f = 48 \<and> g = 48 + m) \<or> (10 \<le> m \<and> f = 49 \<and> g = 38 + m)"
    by arith
  with \<open>1 \<le> m\<close> \<open>m \<le> 12\<close> show ?thesis
    unfolding m_def [symmetric] by (auto simp: month_spelling_iff)
qed

lemma two_digit_day:
  assumes "ascii_digit i" and "ascii_digit j"
    and "1 \<le> ascii_num [i, j]" and "ascii_num [i, j] \<le> 31"
  shows "day_spelling uni [i, j] (ascii_num [i, j])"
proof -
  define d where "d = ascii_num [i, j]"
  then have d: "d = 10 * (i - 48) + (j - 48)" by (simp add: ascii_num_def)
  from assms(1,2) have r: "48 \<le> i" "i \<le> 57" "48 \<le> j" "j \<le> 57"
    by (simp_all add: ascii_digit_def)
  from assms(3,4) have b: "1 \<le> d" "d \<le> 31" by (simp_all add: d_def)
  define t u where "t = i - 48" and "u = j - 48"
  with r have tu: "u < 10" "i = 48 + t" "j = 48 + u" by simp_all
  from d have "d = 10 * t + u" by (simp add: t_def u_def)
  with tu(1) have "d div 10 = t" "d mod 10 = u" by simp_all
  with tu have "i = 48 + d div 10" "j = 48 + d mod 10" by simp_all
  then have D: "[i, j] = [48 + d div 10, 48 + d mod 10]" by simp
  show ?thesis
  proof (cases "d < 10")
    case True
    then have "d div 10 = 0" "d mod 10 = d" by simp_all
    with D b True show ?thesis
      unfolding d_def [symmetric] by (simp add: day_spelling_iff)
  next
    case False
    with D b show ?thesis
      unfolding d_def [symmetric] by (simp add: day_spelling_iff)
  qed
qed

lemma days_in_month_le: "days_in_month y m \<le> 31"
  by (simp add: days_in_month_def)

lemma strptime_well_formed:
  assumes "well_formed_date s" and "1 \<le> ascii_num (take 4 s)"
  shows "strptime uni s = Some (calendar_date s)"
proof -
  from assms(1) have "length s = 10" by (simp add: well_formed_date_def)
  from ten_elems [OF this]
  obtain a b c d e f g h i j where s: "s = [a, b, c, d, e, f, g, h, i, j]"
    by auto
  let ?y = "ascii_num [a, b, c, d]" and ?m = "ascii_num [f, g]" and ?d = "ascii_num [i, j]"
  from assms(1) have wf: "list_all ascii_digit [a, b, c, d]" "e = 45"
      "ascii_digit f" "ascii_digit g" "h = 45" "ascii_digit i" "ascii_digit j"
      "1 \<le> ?m" "?m \<le> 12" "1 \<le> ?d" "?d \<le> days_in_month ?y ?m"
    by (simp_all add: well_formed_date_def s)
  from wf(11) days_in_month_le [of ?y ?m] have d31: "?d \<le> 31" by simp
  have "year_spelling uni [a, b, c, d] ?y"
    using num_ascii [OF wf(1), of uni] ascii_is_decimal [OF wf(1), of uni]
    by (simp add: year_spelling_def)
  moreover have "month_spelling [f, g] ?m"
    using wf by (intro two_digit_month)
  moreover have "day_spelling uni [i, j] ?d"
    using wf d31 by (intro two_digit_day)
  moreover have "s = [a, b, c, d] @ 45 # [f, g] @ 45 # [i, j]"
    using wf(2,5) by (simp add: s)
  ultimately have "date_spelling uni s ?y ?m ?d"
    unfolding date_spelling_def by blast
  with wf(11) assms(2) have "strptime uni s = Some (Date ?y ?m ?d)"
    by (simp add: strptime_iff s)
  then show ?thesis by (simp add: calendar_date_def s)
qed

section \<open>Evaluation\<close>

lemma length_text_of: "length (text_of s) = length s"
  by (simp add: text_of_def)

lemmas run_defs = save_batch_to_db_def open_session_def session_get_def flush_def commit_def
  execute_def insert_genre_def insert_movie_def insert_link_def int4_def varchar_def
  stage_movie_def new_movie_def new_links_def str_def digits.simps sample_item_def
  empty_store_def server_def parse_date_safe_def length_text_of Let_def

lemmas fetch_defs = fetch_movies_batch_def try_body_def numeral_3_eq_3 one_page_api_def
  flaky_api_def two_page_api_def dup_genre_api_def upto_rec1

lemmas date_defs = well_formed_date_def calendar_date_def parse_date_safe_def
  strptime_def num_def ascii_num_def decimal_value_def is_decimal_def ascii_digit_def
  days_in_month_def is_leap_def text_of_def arabic_indic_def

section \<open>Properties of the Fetcher and the Batch Collector\<close>

text \<open>
  C1 as stated does not hold: after an empty page the run goes on when the batch of that
  page had collected items. With one item on page 1 and every other page empty, page 2
  answers with an empty result, the batch of pages 1 to 5 holds the item of page 1 and
  is persisted, and the Driver starts the batch of page 6.
\<close>

theorem partial_batch_continues:
  "answers one_page_api 2 [] \<and>
   fst (fetch_page one_page_api 2 3) = Exhausted \<and>
   fst (fetch_movies_batch one_page_api 1 5) =
     [sample_item 7 (Some (text_of ''1995-12-15'')) [1, 2]] \<and>
   fst (main arabic_indic one_page_api empty_world) = Completed \<and>
   trace (snd (main arabic_indic one_page_api empty_world)) = [Get 1, Sleep 400, Get 2, Get 6]"
proof -
  let ?b = "[sample_item 7 (Some (text_of ''1995-12-15'')) [1, 2]]"
  have a: "fetch_movies_batch one_page_api 1 5 = (?b, [Get 1, Sleep 400, Get 2])"
    by (simp add: fetch_defs)
  have b: "fetch_movies_batch one_page_api 6 5 = ([], [Get 6])"
    by (simp add: fetch_defs)
  have "fst (save_batch_to_db arabic_indic ?b (server empty_store)) = None"
    by (simp add: run_defs date_defs)
  then obtain db' where c: "save_batch_to_db arabic_indic ?b (database empty_world) = (None, db')"
    by (cases "save_batch_to_db arabic_indic ?b (server empty_store)")
       (simp add: empty_world_def)
  have "main arabic_indic one_page_api empty_world =
      main_loop arabic_indic one_page_api 100 5 6
        (empty_world\<lparr>trace := [Get 1, Sleep 400, Get 2],
           csv_file := save_to_csv ?b None,
           database := db'\<rparr>)"
    unfolding main_def
    using main_loop_ok [of 1 100 one_page_api 5 arabic_indic empty_world db'] a c
    by (simp add: empty_world_def)
  also have "\<dots> = (Completed, empty_world\<lparr>trace := [Get 1, Sleep 400, Get 2, Get 6],
           csv_file := save_to_csv ?b None,
           database := db'\<rparr>)"
    by (subst main_loop_empty) (simp_all add: b empty_world_def)
  finally have m: "main arabic_indic one_page_api empty_world =
      (Completed, empty_world\<lparr>trace := [Get 1, Sleep 400, Get 2, Get 6],
           csv_file := save_to_csv ?b None,
           database := db'\<rparr>)" .
  have "fst (fetch_page one_page_api 2 3) = Exhausted"
    by (simp add: fetch_defs)
  moreover have "answers one_page_api 2 []"
    by (simp add: answers_def one_page_api_def)
  ultimately show ?thesis using m a by simp
qed

text \<open>
  C1, amended. Let page \<open>k\<close> be the first page of a batch that answers with an empty
  result (on whichever of its three requests). Then the Collector returns what it has
  accumulated: the items of the pages before \<open>k\<close>, in page order. It requests the pages
  from the start of the batch to \<open>k\<close>, each of them, and no page after \<open>k\<close>. And when
  the batch it returns is empty, the Driver ends the run with these requests: no
  further page is fetched and no further batch attempted.
\<close>

theorem end_of_data_stops_batch:
  assumes "start \<le> k" and "k < start + n_pages"
    and "answers api k []"
    and "\<And>p. start \<le> p \<Longrightarrow> p < k \<Longrightarrow> \<not> answers api p []"
  shows "fst (fetch_movies_batch api start n_pages) =
           concat (map (page_items api) [start .. k - 1])
       \<and> snd (fetch_movies_batch api start n_pages) =
           concat (map (\<lambda>p. snd (fetch_page api p 3)) [start .. k])
       \<and> {p. Get p \<in> set (snd (fetch_movies_batch api start n_pages))} = {start .. k}
       \<and> (fst (fetch_movies_batch api start n_pages) = [] \<and> start \<le> MAX_PAGES \<longrightarrow>
            main_loop uni api MAX_PAGES n_pages start w =
              (Completed, w\<lparr>trace := trace w @ snd (fetch_movies_batch api start n_pages)\<rparr>))"
proof (intro conjI impI)
  have run: "fetch_pages api ([start .. k - 1] @ k # [k + 1 .. start + n_pages - 1]) [] =
      ([] @ concat (map (page_items api) [start .. k - 1]),
       concat (map (\<lambda>p. snd (fetch_page api p 3)) ([start .. k - 1] @ [k])))"
    using assms(3,4) by (intro batch_until_exhausted) auto
  have upto: "[start .. k - 1] @ [k] = [start .. k]"
    by (rule upto_rec2 [symmetric]) (rule assms(1))
  from run show "fst (fetch_movies_batch api start n_pages) =
      concat (map (page_items api) [start .. k - 1])"
    by (simp only: fetch_movies_batch_def range_split [OF assms(1,2)]) simp
  from run upto show events: "snd (fetch_movies_batch api start n_pages) =
      concat (map (\<lambda>p. snd (fetch_page api p 3)) [start .. k])"
    by (simp only: fetch_movies_batch_def range_split [OF assms(1,2)]) simp
  show "{p. Get p \<in> set (snd (fetch_movies_batch api start n_pages))} = {start .. k}"
  proof (intro equalityI subsetI)
    fix p
    assume "p \<in> {p. Get p \<in> set (snd (fetch_movies_batch api start n_pages))}"
    then obtain q where q: "q \<in> set [start .. k]" "Get p \<in> set (snd (fetch_page api q 3))"
      unfolding events by auto
    from q(2) have "p = q" by (rule fetch_page_gets)
    with q(1) show "p \<in> {start .. k}" by simp
  next
    fix p
    assume "p \<in> {start .. k}"
    then have "p \<in> set [start .. k]" by simp
    with fetch_page_gets_self [of p api]
    show "p \<in> {p. Get p \<in> set (snd (fetch_movies_batch api start n_pages))}"
      unfolding events by auto
  qed
next
  assume "fst (fetch_movies_batch api start n_pages) = [] \<and> start \<le> MAX_PAGES"
  then show "main_loop uni api MAX_PAGES n_pages start w =
      (Completed, w\<lparr>trace := trace w @ snd (fetch_movies_batch api start n_pages)\<rparr>)"
    by (intro main_loop_empty) simp_all
qed

theorem end_of_data_stops_batch_witness:
  "fetch_movies_batch flaky_api 1 5 =
     ([sample_item 7 None [1], sample_item 9 None [2]],
      [Get 1, Sleep 400, Get 2, Sleep 2000, Get 2, Sleep 2000, Get 2, Sleep 2000,
       Get 3, Sleep 400, Get 4])
   \<and> {p. Get p \<in> set (snd (fetch_movies_batch flaky_api 1 5))} = {1 .. 4}
   \<and> main_loop arabic_indic one_page_api 100 5 6 empty_world =
       (Completed, empty_world\<lparr>trace := [Get 6]\<rparr>)"
proof -
  have a: "answers flaky_api 4 []" "answers one_page_api 6 []"
    by (simp_all add: answers_def flaky_api_def one_page_api_def)
  have b: "\<not> answers flaky_api p []" if "1 \<le> p" "p < 4" for p
  proof -
    from that have "p = 1 \<or> p = 2 \<or> p = 3" by arith
    then show ?thesis
      by (auto simp: answers_def flaky_api_def sample_item_def attempt_fails_def)
  qed
  have c: "concat (map (page_items flaky_api) [1 .. 4 - 1]) =
      [sample_item 7 None [1], sample_item 9 None [2]]"
    by (simp add: page_items_def attempt_fails_def flaky_api_def upto_rec1)
  have d: "concat (map (\<lambda>p. snd (fetch_page flaky_api p 3)) [1 .. 4]) =
      [Get 1, Sleep 400, Get 2, Sleep 2000, Get 2, Sleep 2000, Get 2, Sleep 2000,
       Get 3, Sleep 400, Get 4]"
    by (simp add: fetch_defs sample_item_def)
  have e: "fetch_movies_batch one_page_api 6 5 = ([], [Get 6])"
    by (simp add: fetch_defs)
  have th: "fst (fetch_movies_batch flaky_api 1 5) =
           concat (map (page_items flaky_api) [1 .. 4 - 1])
       \<and> snd (fetch_movies_batch flaky_api 1 5) =
           concat (map (\<lambda>p. snd (fetch_page flaky_api p 3)) [1 .. 4])
       \<and> {p. Get p \<in> set (snd (fetch_movies_batch flaky_api 1 5))} = {1 .. 4}"
  proof -
    have le: "(1 :: int) \<le> 4" "(4 :: int) < 1 + 5" by simp_all
    from end_of_data_stops_batch
      [of 1 4 5 flaky_api 100 arabic_indic empty_world, OF le a(1)] b
    show ?thesis by blast
  qed
  from th have "fst (fetch_movies_batch flaky_api 1 5) =
      [sample_item 7 None [1], sample_item 9 None [2]]"
    by (simp only: c)
  moreover from th have "snd (fetch_movies_batch flaky_api 1 5) =
      [Get 1, Sleep 400, Get 2, Sleep 2000, Get 2, Sleep 2000, Get 2, Sleep 2000,
       Get 3, Sleep 400, Get 4]"
    by (simp only: d)
  ultimately have 1: "fetch_movies_batch flaky_api 1 5 =
     ([sample_item 7 None [1], sample_item 9 None [2]],
      [Get 1, Sleep 400, Get 2, Sleep 2000, Get 2, Sleep 2000, Get 2, Sleep 2000,
       Get 3, Sleep 400, Get 4])"
    by (simp only: prod_eq_iff fst_conv snd_conv)
  from th have 2: "{p. Get p \<in> set (snd (fetch_movies_batch flaky_api 1 5))} = {1 .. 4}"
    by (rule conjunct2 [THEN conjunct2])
  from end_of_data_stops_batch [of 6 6 5 one_page_api 100 arabic_indic empty_world, OF _ _ a(2)] e
  have 3: "main_loop arabic_indic one_page_api 100 5 6 empty_world =
       (Completed, empty_world\<lparr>trace := [Get 6]\<rparr>)"
    by (simp add: empty_world_def)
  from 1 2 3 show ?thesis by (intro conjI)
qed

text \<open>
  C5: exactness of the Collector on early termination. When every page \<open>p\<close> from
  \<open>start\<close> to \<open>k - 1\<close> answers with results \<open>items p\<close>, not empty, and page \<open>k\<close> of the
  batch answers with an empty result, the batch is the items of the pages \<open>start\<close> to
  \<open>k - 1\<close> in page order and in the order of each page, and nothing else.
\<close>

theorem collect_until_empty_page:
  assumes "start \<le> k" and "k < start + n_pages"
    and "\<And>p. start \<le> p \<Longrightarrow> p < k \<Longrightarrow> items p \<noteq> [] \<and> answers api p (items p)"
    and "answers api k []"
  shows "fst (fetch_movies_batch api start n_pages) = concat (map items [start .. k - 1])"
proof -
  have it: "page_items api p = items p" if "p \<in> set [start .. k - 1]" for p
    using assms(3) [of p] that by (simp add: answers_items)
  have ne: "\<not> answers api p []" if "p \<in> set [start .. k - 1]" for p
  proof
    assume "answers api p []"
    then have "page_items api p = []" by (rule answers_items)
    with it [OF that] assms(3) [of p] that show False by simp
  qed
  have "fetch_pages api ([start .. k - 1] @ k # [k + 1 .. start + n_pages - 1]) [] =
      ([] @ concat (map (page_items api) [start .. k - 1]),
       concat (map (\<lambda>p. snd (fetch_page api p 3)) ([start .. k - 1] @ [k])))"
    using ne assms(4) by (intro batch_until_exhausted) auto
  moreover have "map (page_items api) [start .. k - 1] = map items [start .. k - 1]"
    using it by (intro map_cong) auto
  ultimately show ?thesis
    by (simp only: fetch_movies_batch_def range_split [OF assms(1,2)]) simp
qed

theorem collect_until_empty_page_witness:
  "fst (fetch_movies_batch two_page_api 1 5) =
     [sample_item 7 None [1], sample_item 8 None [], sample_item 9 None [2]]"
proof -
  let ?items = "\<lambda>p :: int. if p = 1 then [sample_item 7 None [1], sample_item 8 None []]
                  else [sample_item 9 None [2]]"
  have a: "?items p \<noteq> [] \<and> answers two_page_api p (?items p)" if "1 \<le> p" "p < 3" for p
  proof -
    from that have "p = 1 \<or> p = 2" by arith
    then show ?thesis
      by (auto simp: answers_def two_page_api_def attempt_fails_def)
  qed
  have b: "answers two_page_api 3 []"
    by (simp add: answers_def two_page_api_def)
  have "fst (fetch_movies_batch two_page_api 1 5) = concat (map ?items [1 .. 3 - 1])"
    using _ _ a b by (rule collect_until_empty_page) simp_all
  then show ?thesis by (simp add: upto_rec1)
qed

text \<open>
  C6: retry containment. When all three attempts for a page fail, the page is requested
  three times with a sleep of 2 seconds after each failure and is then skipped; the
  loop goes on with the next page and the list collected so far; and the batch is the
  one the remaining pages of the range give, so the page contributes nothing and no
  error leaves the Collector.
\<close>

theorem retry_containment:
  assumes "attempt_fails (api page 0)" and "attempt_fails (api page 1)"
    and "attempt_fails (api page 2)"
  shows "fetch_page api page 3 =
           (Skipped, [Get page, Sleep 2000, Get page, Sleep 2000, Get page, Sleep 2000])
       \<and> fetch_pages api (page # pages) movies_so_far =
           (fst (fetch_pages api pages movies_so_far),
            [Get page, Sleep 2000, Get page, Sleep 2000, Get page, Sleep 2000]
              @ snd (fetch_pages api pages movies_so_far))
       \<and> (start \<le> page \<and> page < start + n_pages \<longrightarrow>
            fst (fetch_movies_batch api start n_pages) =
            fst (fetch_pages api ([start .. page - 1] @ [page + 1 .. start + n_pages - 1]) []))"
proof -
  have skipped: "fetch_page api page 3 =
      (Skipped, [Get page, Sleep 2000, Get page, Sleep 2000, Get page, Sleep 2000])"
    using assms by (rule fetch_page_all_fail)
  have next_page: "fetch_pages api (page # pages) movies_so_far =
      (fst (fetch_pages api pages movies_so_far),
       [Get page, Sleep 2000, Get page, Sleep 2000, Get page, Sleep 2000]
         @ snd (fetch_pages api pages movies_so_far))"
    by (simp add: fetch_pages_Cons skipped del: fetch_pages.simps(2))
  have "fst (fetch_movies_batch api start n_pages) =
      fst (fetch_pages api ([start .. page - 1] @ [page + 1 .. start + n_pages - 1]) [])"
    if "start \<le> page" "page < start + n_pages"
    using fetch_pages_skip_middle [of api page "[start .. page - 1]"
        "[page + 1 .. start + n_pages - 1]" "[]"] skipped
    by (simp add: fetch_movies_batch_def range_split [OF that])
  with skipped next_page show ?thesis by blast
qed

theorem retry_containment_witness:
  "fetch_page flaky_api 2 3 =
     (Skipped, [Get 2, Sleep 2000, Get 2, Sleep 2000, Get 2, Sleep 2000])
   \<and> fst (fetch_movies_batch flaky_api 1 5) = [sample_item 7 None [1], sample_item 9 None [2]]"
proof -
  have f: "attempt_fails (flaky_api 2 0)" "attempt_fails (flaky_api 2 1)"
    "attempt_fails (flaky_api 2 2)"
    by (simp_all add: attempt_fails_def flaky_api_def)
  have "fst (fetch_pages flaky_api ([1 .. 2 - 1] @ [2 + 1 .. 1 + 5 - 1]) []) =
      [sample_item 7 None [1], sample_item 9 None [2]]"
    by (simp add: fetch_defs)
  with retry_containment [where api = flaky_api and page = 2 and start = 1 and n_pages = 5] f
  show ?thesis by simp
qed

section \<open>Properties of the Mirror Writer\<close>

text \<open>
  C8: the header is written once. Any sequence of one or more appends to a destination
  that did not exist leaves the header as the first row, followed by the rows of the
  items only, none of which is the header; appends to a destination that exists add
  rows of items only.
\<close>

theorem mirror_header_once:
  "fold save_to_csv (b # bs) None = Some (header # concat (map (map csv_row) (b # bs)))
   \<and> header \<notin> set (concat (map (map csv_row) (b # bs)))
   \<and> fold save_to_csv bs (Some rows) = Some (rows @ concat (map (map csv_row) bs))"
  using header_not_data [of "b # bs"]
  by (simp add: save_to_csv_None fold_save_Some)

theorem mirror_header_once_witness:
  "fold save_to_csv [[sample_item 7 None [1]], [], [sample_item 9 None []]] None =
     Some [header, csv_row (sample_item 7 None [1]), csv_row (sample_item 9 None [])]"
  using mirror_header_once [of "[sample_item 7 None [1]]" "[[], [sample_item 9 None []]]"]
  by simp

text \<open>
  C10: the Mirror Writer on an empty batch. On a destination that does not exist it
  creates the file with the header row and nothing else; on one that exists it leaves
  the rows as they are.
\<close>

theorem mirror_empty_batch:
  "save_to_csv [] None = Some [header] \<and> save_to_csv [] (Some rows) = Some rows"
  by (simp add: save_to_csv_None save_to_csv_Some)

section \<open>Properties of the Upsert Engine\<close>

text \<open>
  C2, at the input of its scenario. An item with \<open>genre_ids = [1, 1, 2]\<close> gets the genre
  1 appended to \<open>movie.genres\<close> twice, the flush inserts the row \<open>(7, 1)\<close> of
  \<open>movies_genres\<close> twice, and the composite primary key of that table rejects the
  second: the call raises \<open>IntegrityError\<close> and nothing of the item is committed,
  where the scenario expects the two rows \<open>(7, 1)\<close> and \<open>(7, 2)\<close>.
\<close>

theorem repeated_genre_id_fails:
  "fst (save_batch_to_db uni [sample_item 7 None [1, 1, 2]] (server empty_store)) =
     Some IntegrityError
   \<and> committed (snd (save_batch_to_db uni [sample_item 7 None [1, 1, 2]]
        (server empty_store))) = empty_store"
  by (simp add: run_defs)

text \<open>
  The part of C2 that holds on the code: a call that commits leaves no pair twice in
  \<open>movies_genres\<close>, since every insert into the table checks its primary key.
\<close>

theorem committed_pairs_unique:
  assumes "save_batch_to_db uni batch db = (None, db')"
    and "distinct (movies_genres (committed db))"
  shows "distinct (movies_genres (committed db'))"
proof -
  from save_batch_to_db_commits(2) [OF assms(1)]
  have "finish uni batch (open_session db) = (None, db')" .
  moreover from assms(2) have "distinct (movies_genres (in_tx (conn (open_session db))))"
    by simp
  ultimately show ?thesis by (rule finish_links [rotated])
qed

theorem committed_pairs_unique_witness:
  "save_batch_to_db arabic_indic [sample_item 7 None [1, 2]] (server empty_store) =
     (None, server sample_store)
   \<and> distinct (movies_genres (committed (server sample_store)))"
proof -
  have h: "save_batch_to_db arabic_indic [sample_item 7 None [1, 2]] (server empty_store) =
      (None, server sample_store)"
    by (simp add: run_defs sample_store_def)
  moreover have "distinct (movies_genres (committed (server empty_store)))"
    by (simp add: empty_store_def server_def)
  ultimately have "distinct (movies_genres (committed (server sample_store)))"
    by (rule committed_pairs_unique)
  with h show ?thesis by (intro conjI)
qed

text \<open>
  C3: persisting is idempotent. When a call on a batch has committed, a second call on
  the same batch commits too and leaves the server as it is: every item is skipped, no
  movie, no genre and no row of \<open>movies_genres\<close> is added.
\<close>

theorem persist_idempotent:
  assumes "save_batch_to_db uni batch db = (None, db')"
  shows "save_batch_to_db uni batch db' = (None, db')"
proof -
  note c = save_batch_to_db_commits [OF assms]
  have "m_id ` set batch \<subseteq> tx_ids (open_session db')"
    using c(5) by simp
  then have "finish uni batch (open_session db') =
      (None, (conn (open_session db'))\<lparr>committed := in_tx (conn (open_session db'))\<rparr>)"
    by (intro finish_all_known) simp
  moreover have "(conn (open_session db'))\<lparr>committed := in_tx (conn (open_session db'))\<rparr> = db'"
    using c(3) by simp
  ultimately show ?thesis
    using c(4) by (simp add: save_batch_to_db_finish)
qed

theorem persist_idempotent_witness:
  "save_batch_to_db arabic_indic [sample_item 7 None [1, 2]] (server empty_store) =
     (None, server sample_store) \<and>
   save_batch_to_db arabic_indic [sample_item 7 None [1, 2]] (server sample_store) =
     (None, server sample_store)"
proof -
  have h: "save_batch_to_db arabic_indic [sample_item 7 None [1, 2]] (server empty_store) =
      (None, server sample_store)"
    by (simp add: run_defs sample_store_def)
  from persist_idempotent [OF h] h show ?thesis by (intro conjI)
qed

text \<open>
  C9: duplicates inside a batch. A call on a batch does what the call on the batch
  without the later occurrences of each identifier does, so every occurrence after the
  first is skipped as a stored record is. And on a server that accepts the connection,
  the table \<open>movies\<close> of the transaction is after the call the committed table followed
  by the rows the call inserted, whose identifiers are pairwise different and none of
  them in the committed table: the primary key of \<open>movies\<close> holds, whether the call
  commits or raises.
\<close>

theorem intra_batch_duplicates:
  "save_batch_to_db uni batch db = save_batch_to_db uni (first_occurrences [] batch) db
   \<and> (accepting db \<longrightarrow>
        take (length (movie_ids (committed db)))
          (movie_ids (in_tx (snd (save_batch_to_db uni batch db)))) = movie_ids (committed db)
        \<and> pk_ok (movie_ids (committed db))
            (drop (length (movie_ids (committed db)))
               (movie_ids (in_tx (snd (save_batch_to_db uni batch db))))))"
proof (intro conjI impI)
  have "finish uni (first_occurrences [] batch) (open_session db) =
      finish uni batch (open_session db)"
    by (rule finish_first_occurrences) simp_all
  then show "save_batch_to_db uni batch db =
      save_batch_to_db uni (first_occurrences [] batch) db"
    by (simp add: save_batch_to_db_finish)
next
  assume a: "accepting db"
  have "extends (movie_ids (committed db))
      (movie_ids (in_tx (snd (finish uni batch (open_session db)))))"
    by (rule finish_extends) (simp_all add: extends_refl)
  with a have e: "extends (movie_ids (committed db))
      (movie_ids (in_tx (snd (save_batch_to_db uni batch db))))"
    by (simp add: save_batch_to_db_finish)
  from e show "take (length (movie_ids (committed db)))
      (movie_ids (in_tx (snd (save_batch_to_db uni batch db)))) = movie_ids (committed db)"
    by (simp add: extends_def)
  from e show "pk_ok (movie_ids (committed db))
      (drop (length (movie_ids (committed db)))
         (movie_ids (in_tx (snd (save_batch_to_db uni batch db)))))"
    by (simp add: extends_def)
qed

theorem intra_batch_duplicates_witness:
  "save_batch_to_db arabic_indic
     [sample_item 7 None [1, 2], sample_item 7 (Some (text_of ''2001-01-01'')) [3]]
     (server empty_store) = (None, server sample_store)
   \<and> pk_ok (movie_ids (committed (server empty_store)))
       (drop (length (movie_ids (committed (server empty_store))))
          (movie_ids (in_tx (server sample_store))))"
proof -
  let ?batch = "[sample_item 7 None [1, 2], sample_item 7 (Some (text_of ''2001-01-01'')) [3]]"
  have h: "save_batch_to_db arabic_indic [sample_item 7 None [1, 2]] (server empty_store) =
      (None, server sample_store)"
    by (simp add: run_defs sample_store_def)
  have f: "first_occurrences [] ?batch = [sample_item 7 None [1, 2]]"
    by (simp add: sample_item_def)
  have acc: "accepting (server empty_store)"
    by (simp add: server_def)
  note th = intra_batch_duplicates [of arabic_indic ?batch "server empty_store"]
  from th have 1: "save_batch_to_db arabic_indic ?batch (server empty_store) =
      (None, server sample_store)"
    by (simp only: f h)
  from th acc have "pk_ok (movie_ids (committed (server empty_store)))
      (drop (length (movie_ids (committed (server empty_store))))
         (movie_ids (in_tx (snd (save_batch_to_db arabic_indic ?batch (server empty_store))))))"
    by blast
  then have 2: "pk_ok (movie_ids (committed (server empty_store)))
       (drop (length (movie_ids (committed (server empty_store))))
          (movie_ids (in_tx (server sample_store))))"
    by (simp only: 1 snd_conv)
  from 1 2 show ?thesis by (intro conjI)
qed

text \<open>
  C7 as stated does not hold. \<open>2020-1-5\<close> is not a well-formed \<open>YYYY-MM-DD\<close> string,
  yet the parser of the library reads one-digit months and days, and the date
  5 January 2020 is stored, not null; the same for a year written in the ARABIC-INDIC
  digits U+0660 to U+0669 (here U+0662 U+0660 U+0662 U+0660 for 2020), which the
  parser reads as decimal digits. In the other direction \<open>0000-01-01\<close> is well-formed
  and names a day of its month, yet null is stored, since the dates of the library
  begin with the year 1.
\<close>

theorem date_format_divergence:
  "\<not> well_formed_date (text_of ''2020-1-5'')
   \<and> parse_date_safe arabic_indic (Some (text_of ''2020-1-5'')) = Some (Date 2020 1 5)
   \<and> map release_date (movies (committed (snd (save_batch_to_db arabic_indic
        [sample_item 7 (Some (text_of ''2020-1-5'')) []] (server empty_store))))) =
       [Some (Date 2020 1 5)]
   \<and> \<not> well_formed_date [1634, 1632, 1634, 1632, 45, 48, 49, 45, 48, 53]
   \<and> parse_date_safe arabic_indic (Some [1634, 1632, 1634, 1632, 45, 48, 49, 45, 48, 53]) =
       Some (Date 2020 1 5)
   \<and> well_formed_date (text_of ''0000-01-01'')
   \<and> parse_date_safe arabic_indic (Some (text_of ''0000-01-01'')) = None
   \<and> map release_date (movies (committed (snd (save_batch_to_db arabic_indic
        [sample_item 7 (Some (text_of ''0000-01-01'')) []] (server empty_store))))) =
       [None]"
proof -
  have 1: "\<not> well_formed_date (text_of ''2020-1-5'')"
    by (simp add: date_defs)
  have 2: "parse_date_safe arabic_indic (Some (text_of ''2020-1-5'')) = Some (Date 2020 1 5)"
    by (simp add: date_defs)
  have 3: "map release_date (movies (committed (snd (save_batch_to_db arabic_indic
        [sample_item 7 (Some (text_of ''2020-1-5'')) []] (server empty_store))))) =
       [Some (Date 2020 1 5)]"
    by (simp add: run_defs date_defs)
  have 4: "\<not> well_formed_date [1634, 1632, 1634, 1632, 45, 48, 49, 45, 48, 53]"
    by (simp add: date_defs)
  have 5: "parse_date_safe arabic_indic
      (Some [1634, 1632, 1634, 1632, 45, 48, 49, 45, 48, 53]) = Some (Date 2020 1 5)"
    by (simp add: date_defs)
  have 6: "well_formed_date (text_of ''0000-01-01'')"
    by (simp add: date_defs)
  have 7: "parse_date_safe arabic_indic (Some (text_of ''0000-01-01'')) = None"
    by (simp add: date_defs)
  have 8: "map release_date (movies (committed (snd (save_batch_to_db arabic_indic
        [sample_item 7 (Some (text_of ''0000-01-01'')) []] (server empty_store))))) =
       [None]"
    by (simp add: run_defs date_defs)
  from 1 2 3 4 5 6 7 8 show ?thesis by (intro conjI)
qed

text \<open>
  C7, amended. A well-formed \<open>YYYY-MM-DD\<close> release date of the year 1 or later is
  parsed to the date it names. A missing release date gives null. A release date is
  parsed to the date \<open>y\<close>, \<open>m\<close>, \<open>d\<close> exactly when it is one of the spellings of that
  date the parser of the library reads (\<open>date_spelling\<close>), \<open>y\<close> is 1 or later and \<open>d\<close>
  is a day of the month; every other string gives null, and the parse returns a value
  in every case: it never raises. The rows a committed call adds to \<open>movies\<close> are, in
  order, those of the first occurrences of the identifiers that were not stored, each
  with the parsed value as its release date.
\<close>

theorem date_normalization:
  "(well_formed_date s \<and> 1 \<le> ascii_num (take 4 s) \<longrightarrow>
      parse_date_safe uni (Some s) = Some (calendar_date s))
   \<and> parse_date_safe uni None = None
   \<and> (parse_date_safe uni (Some s) = Some (Date y m d) \<longleftrightarrow>
        date_spelling uni s y m d \<and> 1 \<le> y \<and> d \<le> days_in_month y m)
   \<and> (parse_date_safe uni (Some s) = None \<longleftrightarrow>
        \<not> (\<exists>y m d. date_spelling uni s y m d \<and> 1 \<le> y \<and> d \<le> days_in_month y m))
   \<and> (save_batch_to_db uni batch db = (None, db') \<longrightarrow>
        map (\<lambda>r. (movie_id r, release_date r)) (movies (committed db')) =
          map (\<lambda>r. (movie_id r, release_date r)) (movies (committed db)) @
          map (\<lambda>m. (m_id m, parse_date_safe uni (m_release_date m)))
            (new_items (committed db) batch))"
proof (intro conjI impI)
  assume "well_formed_date s \<and> 1 \<le> ascii_num (take 4 s)"
  then show "parse_date_safe uni (Some s) = Some (calendar_date s)"
    by (simp add: parse_date_safe_def strptime_well_formed)
next
  show "parse_date_safe uni None = None"
    by (simp add: parse_date_safe_def)
next
  show "parse_date_safe uni (Some s) = Some (Date y m d) \<longleftrightarrow>
      date_spelling uni s y m d \<and> 1 \<le> y \<and> d \<le> days_in_month y m"
    by (simp add: parse_date_safe_def strptime_iff)
next
  show "parse_date_safe uni (Some s) = None \<longleftrightarrow>
      \<not> (\<exists>y m d. date_spelling uni s y m d \<and> 1 \<le> y \<and> d \<le> days_in_month y m)"
    by (simp only: parse_date_safe_def option.case strptime_None_iff)
next
  assume "save_batch_to_db uni batch db = (None, db')"
  then have f: "finish uni batch (open_session db) = (None, db')"
    by (rule save_batch_to_db_commits(2))
  have "map (\<lambda>r. (movie_id r, release_date r)) (movies (committed db')) =
      map (\<lambda>r. (movie_id r, release_date r)) (movies (in_tx (conn (open_session db)))) @
      map (\<lambda>m. (m_id m, parse_date_safe uni (m_release_date m)))
        (filter (\<lambda>m. m_id m \<notin> tx_ids (open_session db)) (first_occurrences [] batch))"
    using _ _ f by (rule finish_rows) simp_all
  then show "map (\<lambda>r. (movie_id r, release_date r)) (movies (committed db')) =
      map (\<lambda>r. (movie_id r, release_date r)) (movies (committed db)) @
      map (\<lambda>m. (m_id m, parse_date_safe uni (m_release_date m)))
        (new_items (committed db) batch)"
    by (simp add: new_items_def)
qed

theorem date_normalization_witness:
  "parse_date_safe arabic_indic (Some (text_of ''1995-12-15'')) = Some (Date 1995 12 15)
   \<and> date_spelling arabic_indic (text_of ''1995-12-15'') 1995 12 15
   \<and> \<not> (\<exists>y m d. date_spelling arabic_indic (text_of ''2021-02-30'') y m d
                  \<and> 1 \<le> y \<and> d \<le> days_in_month y m)
   \<and> map (\<lambda>r. (movie_id r, release_date r))
       (movies (committed (snd (save_batch_to_db arabic_indic
          [sample_item 7 (Some (text_of ''1995-12-15'')) [1],
           sample_item 8 (Some (text_of ''2021-02-30'')) [],
           sample_item 7 None []] (server empty_store))))) =
       [(7, Some (Date 1995 12 15)), (8, None)]"
proof -
  let ?batch = "[sample_item 7 (Some (text_of ''1995-12-15'')) [1],
           sample_item 8 (Some (text_of ''2021-02-30'')) [],
           sample_item 7 None []]"
  have wf: "well_formed_date (text_of ''1995-12-15'') \<and>
      1 \<le> ascii_num (take 4 (text_of ''1995-12-15''))"
    by (simp add: date_defs)
  have cd: "calendar_date (text_of ''1995-12-15'') = Date 1995 12 15"
    by (simp add: date_defs)
  have rejected: "parse_date_safe arabic_indic (Some (text_of ''2021-02-30'')) = None"
    by (simp add: date_defs)
  have "fst (save_batch_to_db arabic_indic ?batch (server empty_store)) = None"
    by (simp add: run_defs date_defs)
  then have saved: "save_batch_to_db arabic_indic ?batch (server empty_store) =
      (None, snd (save_batch_to_db arabic_indic ?batch (server empty_store)))"
    by (simp add: prod_eq_iff)
  have new: "new_items (committed (server empty_store)) ?batch =
      [sample_item 7 (Some (text_of ''1995-12-15'')) [1],
       sample_item 8 (Some (text_of ''2021-02-30'')) []]"
    by (simp add: new_items_def movie_ids_def server_def empty_store_def sample_item_def)
  have old: "movies (committed (server empty_store)) = []"
    by (simp add: server_def empty_store_def)
  note th = date_normalization [of "text_of ''1995-12-15''" arabic_indic 1995 12 15]
  from th wf
  have "parse_date_safe arabic_indic (Some (text_of ''1995-12-15'')) =
      Some (calendar_date (text_of ''1995-12-15''))"
    by blast
  then have a: "parse_date_safe arabic_indic (Some (text_of ''1995-12-15'')) =
      Some (Date 1995 12 15)"
    by (simp only: cd)
  from th a have b: "date_spelling arabic_indic (text_of ''1995-12-15'') 1995 12 15"
    by blast
  from date_normalization [of "text_of ''2021-02-30''" arabic_indic] rejected
  have c: "\<not> (\<exists>y m d. date_spelling arabic_indic (text_of ''2021-02-30'') y m d
                  \<and> 1 \<le> y \<and> d \<le> days_in_month y m)"
    by blast
  from date_normalization [of _ arabic_indic _ _ _ ?batch "server empty_store"
      "snd (save_batch_to_db arabic_indic ?batch (server empty_store))"] saved
  have "map (\<lambda>r. (movie_id r, release_date r))
       (movies (committed (snd (save_batch_to_db arabic_indic ?batch (server empty_store))))) =
      map (\<lambda>r. (movie_id r, release_date r)) (movies (committed (server empty_store))) @
      map (\<lambda>m. (m_id m, parse_date_safe arabic_indic (m_release_date m)))
        (new_items (committed (server empty_store)) ?batch)"
    by blast
  moreover have "map (\<lambda>m. (m_id m, parse_date_safe arabic_indic (m_release_date m)))
      [sample_item 7 (Some (text_of ''1995-12-15'')) [1],
       sample_item 8 (Some (text_of ''2021-02-30'')) []] =
      [(7, Some (Date 1995 12 15)), (8, None)]"
    by (simp add: sample_item_def a rejected)
  ultimately have d: "map (\<lambda>r. (movie_id r, release_date r))
       (movies (committed (snd (save_batch_to_db arabic_indic ?batch (server empty_store))))) =
       [(7, Some (Date 1995 12 15)), (8, None)]"
    by (simp only: new old list.map append_Nil)
  from a b c d show ?thesis by (intro conjI)
qed

section \<open>Properties of the Driver\<close>



end
